theory Spec2Isabelle
  imports Main "HOL-Library.Sublist"
begin

section \<open>Python primitives used by \<open>mtg_format.py\<close>\<close>

text \<open>
  A \<open>string\<close> is a list of characters. \<open>lower\<close> is \<open>str.lower\<close> on ASCII: the capitals
  \<open>A\<close> to \<open>Z\<close> become \<open>a\<close> to \<open>z\<close>, every other character stays. (Outside ASCII,
  \<open>str.lower\<close> maps to non-ASCII characters, save for U+0130 and U+212A, which give
  \<open>i\<close> followed by U+0307 and \<open>k\<close>; no format name has a \<open>k\<close> or ends in \<open>i\<close>, so
  neither can complete an occurrence of a format name.)
\<close>

definition lower_char :: "char \<Rightarrow> char" where
  "lower_char c =
     (case map_of (zip ''ABCDEFGHIJKLMNOPQRSTUVWXYZ'' ''abcdefghijklmnopqrstuvwxyz'') c of
        None \<Rightarrow> c
      | Some l \<Rightarrow> l)"

definition lower :: "string \<Rightarrow> string" where
  "lower s = map lower_char s"

text \<open>\<open>str_in sub s\<close> is Python's \<open>sub in s\<close> on strings: \<open>sub\<close> starts at some position of \<open>s\<close>.\<close>

fun str_in :: "string \<Rightarrow> string \<Rightarrow> bool" where
  "str_in sub [] = (sub = [])"
| "str_in sub (c # cs) = (prefix sub (c # cs) \<or> str_in sub cs)"

text \<open>
  \<open>str_count s sub\<close> is Python's \<open>s.count(sub)\<close>: the number of occurrences found by
  scanning from the left and resuming after the end of each occurrence (so occurrences
  that overlap an earlier counted one are skipped); the empty \<open>sub\<close> is counted
  \<open>len(s) + 1\<close> times.
\<close>

fun str_count :: "string \<Rightarrow> string \<Rightarrow> nat" where
  "str_count [] sub = (if sub = [] then 1 else 0)"
| "str_count (c # cs) sub =
     (if sub = [] then length (c # cs) + 1
      else if prefix sub (c # cs) then 1 + str_count (drop (length sub) (c # cs)) sub
      else str_count cs sub)"

declare str_count.simps [simp del]

text \<open>
  \<open>argmax\<close> is \<open>numpy.argmax\<close> on a one-dimensional array of counts: the index of the
  first occurrence of the maximum. On the empty array numpy raises \<open>ValueError\<close>; both
  call sites reach \<open>argmax\<close> only after a non-zero sum, hence on a non-empty array
  (lemma \<open>sum_list_pos_nonempty\<close> below), and the value \<open>0\<close> given here for \<open>[]\<close> is
  never used.
\<close>

definition argmax :: "nat list \<Rightarrow> nat" where
  "argmax xs = length (takeWhile (\<lambda>x. x < fold max xs 0) xs)"

section \<open>The format vocabulary\<close>

text \<open>\<open>MTGFORMATS.__args__\<close>, in the order of the \<open>Literal\<close>.\<close>

definition MTGFORMATS :: "string list" where
  "MTGFORMATS = [''limited'', ''standard'', ''historic'', ''alchemy'', ''explorer'', ''pioneer'']"

section \<open>The accumulator \<open>known_formats\<close>\<close>

text \<open>
  A Python \<open>dict\<close> keeps its keys in insertion order and \<open>process_article\<close> reads that
  order (\<open>list(known_formats)\<close>, \<open>argmax\<close> over \<open>values()\<close>), so the accumulator is an
  association list: keys distinct, a new key appended at the end.
\<close>

type_synonym known_formats = "(string \<times> nat) list"

definition keys :: "known_formats \<Rightarrow> string list" where
  "keys kf = map fst kf"

definition values_of :: "known_formats \<Rightarrow> nat list" where
  "values_of kf = map snd kf"

text \<open>\<open>d[k] = v\<close>: overwrite in place when the key exists, append otherwise.\<close>

definition setitem :: "string \<Rightarrow> nat \<Rightarrow> known_formats \<Rightarrow> known_formats" where
  "setitem k v kf =
     (if k \<in> set (keys kf) then map (\<lambda>(k', n). if k' = k then (k', v) else (k', n)) kf
      else kf @ [(k, v)])"

text \<open>\<open>d.setdefault(k, v)\<close>, its return value dropped as the source drops it.\<close>

definition setdefault :: "string \<Rightarrow> nat \<Rightarrow> known_formats \<Rightarrow> known_formats" where
  "setdefault k v kf = (if k \<in> set (keys kf) then kf else kf @ [(k, v)])"

text \<open>
  \<open>d[k] += 1\<close>. Python raises \<open>KeyError\<close> when \<open>k\<close> is absent; the source runs it only
  right after \<open>setdefault(k, 0)\<close>, where the key is present (lemma \<open>key_after_setdefault\<close>).
\<close>

definition add_one :: "string \<Rightarrow> known_formats \<Rightarrow> known_formats" where
  "add_one k kf = map (\<lambda>(k', n). if k' = k then (k', n + 1) else (k', n)) kf"

text \<open>The two statements \<open>known_formats.setdefault(f, 0); known_formats[f] += 1\<close>.\<close>

definition count_format :: "string \<Rightarrow> known_formats \<Rightarrow> known_formats" where
  "count_format f kf = add_one f (setdefault f 0 kf)"

section \<open>The content tree\<close>

text \<open>
  The nodes an article iterates over, told apart by \<open>item_type\<close>:
  \<^item> \<open>Section title format_ children\<close>,
  \<^item> \<open>Block text format_\<close>,
  \<^item> \<open>Decklist format_\<close>,
  \<^item> \<open>Other\<close>: a node of any other \<open>item_type\<close>, which \<open>process_content\<close> passes by.
  A nullable field is an \<open>option\<close>. The source mutates the nodes in place; the model
  returns the updated node together with the updated accumulator.
\<close>

datatype content =
    Section "string option" "string option" "content list"
  | Block string "string option"
  | Decklist "string option"
  | Other

record article =
  title :: "string option"
  tags :: "string list"
  formats :: "string list"
  canonical_format :: "string option"
  contents :: "content list"

section \<open>\<open>FormatHandler\<close>\<close>

definition check_format_in_title :: "string option \<Rightarrow> string option" where
  "check_format_in_title ttl =
     (case ttl of
        None \<Rightarrow> None
      | Some t \<Rightarrow>
          (let formats_in_title = filter (\<lambda>f. str_in f (lower t)) MTGFORMATS
           in if length formats_in_title = 1 then Some (formats_in_title ! 0) else None))"

text \<open>
  \<open>process_block\<close> takes the handler's \<open>search_in_text\<close> flag, the block's \<open>text\<close> and
  \<open>format_\<close>, the accumulator and the override; it returns the block's new \<open>format_\<close>
  and the new accumulator.
\<close>

definition process_block ::
  "bool \<Rightarrow> string \<Rightarrow> string option \<Rightarrow> known_formats \<Rightarrow> string option
     \<Rightarrow> string option \<times> known_formats" where
  "process_block search_in_text txt block_format known fmt =
     (case fmt of
        Some f \<Rightarrow> (Some f, known)
      | None \<Rightarrow>
          if search_in_text then
            (let format_occurences = map (\<lambda>f. str_count (lower txt) f) MTGFORMATS
             in if sum_list format_occurences = 0 then (block_format, known)
                else (let f = MTGFORMATS ! argmax format_occurences
                      in (Some f, count_format f known)))
          else (block_format, known))"

definition process_decklist ::
  "string option \<Rightarrow> known_formats \<Rightarrow> string option \<Rightarrow> string option \<times> known_formats" where
  "process_decklist decklist_format known fmt =
     (case decklist_format of
        None \<Rightarrow> (fmt, known)
      | Some d \<Rightarrow> (Some d, count_format d known))"

text \<open>
  \<open>process_content\<close> dispatches on the node; \<open>process_section\<close> takes the section's
  \<open>title\<close>, \<open>format_\<close> and children; \<open>process_children\<close> is the loop
  \<open>for content in ...: self.process_content(content, known_formats, format_=format_)\<close>.
\<close>

function (sequential) process_content ::
    "bool \<Rightarrow> content \<Rightarrow> known_formats \<Rightarrow> string option \<Rightarrow> content \<times> known_formats"
  and process_section ::
    "bool \<Rightarrow> string option \<Rightarrow> string option \<Rightarrow> content list \<Rightarrow> known_formats
       \<Rightarrow> string option \<Rightarrow> content \<times> known_formats"
  and process_children ::
    "bool \<Rightarrow> content list \<Rightarrow> known_formats \<Rightarrow> string option
       \<Rightarrow> content list \<times> known_formats"
where
  "process_content sit (Section t sf cs) known fmt = process_section sit t sf cs known fmt"
| "process_content sit (Block txt bf) known fmt =
     (let (bf', known') = process_block sit txt bf known fmt in (Block txt bf', known'))"
| "process_content sit (Decklist df) known fmt =
     (let (df', known') = process_decklist df known fmt in (Decklist df', known'))"
| "process_content sit Other known fmt = (Other, known)"
| "process_section sit t sf cs known fmt =
     (let (fmt1, known1) =
            (case fmt of
               None \<Rightarrow>
                 (let d = check_format_in_title t
                  in (d, case d of None \<Rightarrow> known | Some f \<Rightarrow> count_format f known))
             | Some f \<Rightarrow> (Some f, known));
          (cs', known2) = process_children sit cs known1 fmt1
      in (Section t fmt1 cs', known2))"
| "process_children sit [] known fmt = ([], known)"
| "process_children sit (c # cs) known fmt =
     (let (c', known1) = process_content sit c known fmt;
          (cs', known2) = process_children sit cs known1 fmt
      in (c' # cs', known2))"
  by pat_completeness auto

termination
  by (relation "measure (\<lambda>x. case x of
          Inl (sit, c, known, fmt) \<Rightarrow> 2 * size c
        | Inr (Inl (sit, t, sf, cs, known, fmt)) \<Rightarrow> 2 * size_list size cs + 1
        | Inr (Inr (sit, cs, known, fmt)) \<Rightarrow> 2 * size_list size cs)") auto

text \<open>
  Modelled from the spec: \<open>MtgArticle.set_format\<close> is defined in \<open>mtgscrapper/items.py\<close>,
  which is not among the sources. The specification says that the handler "set[s] the
  article's single canonical-format field to that format".
\<close>

definition set_format :: "string \<Rightarrow> article \<Rightarrow> article" where
  "set_format f a = a\<lparr>canonical_format := Some f\<rparr>"

text \<open>Line 25: the lower-cased tags that are format names, in tag order, repeats kept.\<close>

definition tag_formats :: "article \<Rightarrow> string list" where
  "tag_formats a = filter (\<lambda>t. t \<in> set MTGFORMATS) (map lower (tags a))"

text \<open>Line 28: \<open>{format_: 0 for format_ in formats}\<close>.\<close>

definition seed :: "string list \<Rightarrow> known_formats" where
  "seed fs = fold (\<lambda>f kf. setitem f 0 kf) fs []"

text \<open>Lines 30 to 33.\<close>

definition priority_format :: "article \<Rightarrow> string option" where
  "priority_format a =
     (let fs = tag_formats a
      in if length fs = 1 then Some (fs ! 0) else check_format_in_title (title a))"

text \<open>Lines 35 and 36: the traversal of the top-level nodes.\<close>

definition traverse :: "bool \<Rightarrow> article \<Rightarrow> content list \<times> known_formats" where
  "traverse sit a =
     process_children sit (contents a) (seed (tag_formats a)) (priority_format a)"

text \<open>
  Lines 40 to 51: the argument of the call \<open>article.set_format(...)\<close>, or \<open>None\<close> when
  the call is not made.
\<close>

definition resolve :: "string option \<Rightarrow> known_formats \<Rightarrow> string option" where
  "resolve priority known =
     (case priority of
        Some p \<Rightarrow> None
      | None \<Rightarrow>
          (let format_occurences = values_of known;
               sum_occurences = sum_list format_occurences
           in if sum_occurences = 0 then None
              else (let max_key_index = argmax format_occurences;
                        format_list = keys known
                    in if format_occurences ! max_key_index = sum_occurences
                       then Some (format_list ! max_key_index) else None)))"

definition process_article :: "bool \<Rightarrow> article \<Rightarrow> article" where
  "process_article sit a =
     (let (cs', known) = traverse sit a;
          a' = a\<lparr>contents := cs', formats := keys known\<rparr>
      in case resolve (priority_format a) known of
           None \<Rightarrow> a'
         | Some f \<Rightarrow> set_format f a')"

section \<open>Formats observed by a traversal\<close>

text \<open>
  What a run observes, told without the accumulator. \<open>text_match\<close> is the format a
  searched block's text yields. \<open>observed sit fmt c\<close> lists, in traversal order, the
  formats observed in node \<open>c\<close> under override \<open>fmt\<close>: the title match of a section that
  has no override (its children are then visited under that match), the text match of a
  block that has no override when \<open>search_in_text\<close> is on, and the format a decklist
  already carries.
\<close>

definition text_match :: "string \<Rightarrow> string option" where
  "text_match txt =
     (let occ = map (str_count (lower txt)) MTGFORMATS
      in if sum_list occ = 0 then None else Some (MTGFORMATS ! argmax occ))"

fun observed :: "bool \<Rightarrow> string option \<Rightarrow> content \<Rightarrow> string list" where
  "observed sit fmt (Section t sf cs) =
     (case fmt of
        Some f \<Rightarrow> concat (map (observed sit (Some f)) cs)
      | None \<Rightarrow>
          (case check_format_in_title t of
             None \<Rightarrow> concat (map (observed sit None) cs)
           | Some g \<Rightarrow> g # concat (map (observed sit (Some g)) cs)))"
| "observed sit fmt (Block txt bf) =
     (case fmt of
        Some f \<Rightarrow> []
      | None \<Rightarrow> if sit then (case text_match txt of None \<Rightarrow> [] | Some g \<Rightarrow> [g]) else [])"
| "observed sit fmt (Decklist df) = (case df of None \<Rightarrow> [] | Some d \<Rightarrow> [d])"
| "observed sit fmt Other = []"

section \<open>The decklist formats of a tree\<close>

text \<open>The \<open>format_\<close> fields of the decklists of a node, in traversal order.\<close>

fun decklist_formats :: "content \<Rightarrow> string option list" where
  "decklist_formats (Section t sf cs) = concat (map decklist_formats cs)"
| "decklist_formats (Block tx bf) = []"
| "decklist_formats (Decklist df) = [df]"
| "decklist_formats Other = []"

section \<open>Notions for comparing two runs\<close>

text \<open>
  \<open>stamp p\<close> is what a run under override \<open>p\<close> does to the \<open>format_\<close> of a decklist.
  \<open>shape\<close> keeps of an accumulator the keys, in order, and whether each count is
  positive; \<open>counted f k\<close> says that \<open>f\<close> is a key of \<open>k\<close> whose count is positive.
\<close>

definition stamp :: "string \<Rightarrow> string option \<Rightarrow> string option" where
  "stamp p df = (case df of None \<Rightarrow> Some p | Some d \<Rightarrow> Some d)"

definition shape :: "known_formats \<Rightarrow> (string \<times> bool) list" where
  "shape k = map (\<lambda>(key, n). (key, 0 < n)) k"

definition counted :: "string \<Rightarrow> known_formats \<Rightarrow> bool" where
  "counted f k \<longleftrightarrow> f \<in> fst ` set (shape k) \<and> (f, False) \<notin> set (shape k)"

section \<open>Facts about the primitives\<close>

lemma keys_setdefault:
  "keys (setdefault k v kf) = (if k \<in> set (keys kf) then keys kf else keys kf @ [k])"
  by (simp add: setdefault_def keys_def)

lemma key_after_setdefault: "k \<in> set (keys (setdefault k v kf))"
  by (simp add: keys_setdefault)

lemma keys_add_one: "keys (add_one k kf) = keys kf"
  by (induction kf) (auto simp: add_one_def keys_def)

lemma keys_count_format:
  "keys (count_format f kf) = (if f \<in> set (keys kf) then keys kf else keys kf @ [f])"
  by (simp add: count_format_def keys_add_one keys_setdefault)

lemma sum_list_pos_nonempty: "sum_list xs \<noteq> (0::nat) \<Longrightarrow> xs \<noteq> []"
  by auto

text \<open>\<open>str_in\<close> is the contiguous-sublist relation of the library.\<close>

lemma str_in_sublist: "str_in sub s \<longleftrightarrow> sublist sub s"
  by (induction s) (auto simp: sublist_Cons_right)

lemma distinct_MTGFORMATS: "distinct MTGFORMATS"
  by (simp add: MTGFORMATS_def)

lemma filter_single:
  assumes "distinct xs" "x \<in> set xs" "P x" "\<forall>y\<in>set xs. P y \<longrightarrow> y = x"
  shows "filter P xs = [x]"
proof -
  from assms(2) obtain ys zs where s: "xs = ys @ x # zs" by (auto simp: in_set_conv_decomp)
  with assms(1) have nx: "x \<notin> set ys" "x \<notin> set zs" by auto
  have "\<forall>y\<in>set ys. \<not> P y" using assms(4) nx s by auto
  moreover have "\<forall>y\<in>set zs. \<not> P y" using assms(4) nx s by auto
  ultimately have "filter P ys = []" "filter P zs = []" by (simp_all add: filter_empty_conv)
  with s assms(3) show ?thesis by simp
qed

lemma filter_two:
  assumes "x \<in> set xs" "y \<in> set xs" "x \<noteq> y" "P x" "P y"
  shows "length (filter P xs) \<noteq> 1"
proof
  assume "length (filter P xs) = 1"
  then obtain z where z: "filter P xs = [z]" by (cases "filter P xs") auto
  from assms have "x \<in> set (filter P xs)" "y \<in> set (filter P xs)" by auto
  with z assms show False by auto
qed

text \<open>The accumulator read as a finite map.\<close>

lemma map_of_add_one:
  "map_of (add_one k kf) = (\<lambda>x. if x = k then map_option Suc (map_of kf k) else map_of kf x)"
  by (induction kf) (auto simp: add_one_def fun_eq_iff)

lemma in_keys_iff: "k \<in> set (keys kf) \<longleftrightarrow> map_of kf k \<noteq> None"
  by (simp add: keys_def map_of_eq_None_iff)

lemma map_of_setdefault:
  "map_of (setdefault k v kf) =
     (case map_of kf k of None \<Rightarrow> (map_of kf)(k \<mapsto> v) | Some n \<Rightarrow> map_of kf)"
proof (cases "map_of kf k")
  case None
  then have "k \<notin> set (keys kf)" by (simp add: in_keys_iff)
  then have "setdefault k v kf = kf @ [(k, v)]" by (simp add: setdefault_def)
  with None show ?thesis by (auto simp: fun_eq_iff map_add_def split: option.splits)
next
  case (Some n)
  then have "k \<in> set (keys kf)" by (simp add: in_keys_iff)
  then have "setdefault k v kf = kf" by (simp add: setdefault_def)
  with Some show ?thesis by simp
qed

lemma map_of_count_format:
  "map_of (count_format f kf) =
     (map_of kf)(f \<mapsto> (case map_of kf f of None \<Rightarrow> 0 | Some n \<Rightarrow> n) + 1)"
  by (auto simp: count_format_def map_of_add_one map_of_setdefault fun_eq_iff split: option.splits)

text \<open>\<open>argmax\<close> returns the first index that holds the maximum.\<close>

lemma fold_max_nat: "fold max xs (a::nat) = Max (set (a # xs))"
  by (simp only: Max.set_eq_fold)

lemma argmax_first_max:
  assumes i: "i < length xs"
    and mx: "\<forall>j<length xs. xs ! j \<le> xs ! i"
    and fst: "\<forall>j<i. xs ! j < xs ! i"
  shows "argmax xs = i"
proof -
  have "Max (set (0 # xs)) = xs ! i"
  proof (rule Max_eqI)
    show "finite (set (0 # xs))" by simp
    show "xs ! i \<in> set (0 # xs)" using i by simp
    fix y assume "y \<in> set (0 # xs)"
    then show "y \<le> xs ! i" using mx by (auto simp: in_set_conv_nth)
  qed
  then have m: "fold max xs 0 = xs ! i" by (simp only: fold_max_nat)
  have "takeWhile (\<lambda>x. x < xs ! i) xs = take i xs"
    by (rule takeWhile_eq_take_P_nth) (use i fst in auto)
  with i m show ?thesis by (simp add: argmax_def)
qed

lemma length_takeWhile_lt: "\<exists>y\<in>set xs. \<not> P y \<Longrightarrow> length (takeWhile P xs) < length xs"
  by (induction xs) auto

lemma argmax_props:
  assumes "sum_list xs \<noteq> 0"
  shows "argmax xs < length xs \<and> (\<forall>j<length xs. xs ! j \<le> xs ! argmax xs)
         \<and> (\<forall>j<argmax xs. xs ! j < xs ! argmax xs) \<and> 0 < xs ! argmax xs"
proof -
  let ?m = "fold max xs 0"
  from assms obtain x where x: "x \<in> set xs" "0 < x" by (induction xs) auto
  have m: "?m = Max (set (0 # xs))" by (simp only: fold_max_nat)
  have fin: "finite (set (0 # xs))" by simp
  have ge: "\<forall>y\<in>set xs. y \<le> ?m" unfolding m using Max_ge [OF fin] by simp
  have "?m \<in> set (0 # xs)" unfolding m by (rule Max_in) simp_all
  moreover have "0 < ?m" using ge x by force
  ultimately have mem: "?m \<in> set xs" by auto
  then have ex: "\<exists>y\<in>set xs. \<not> y < ?m" by auto
  have lt: "argmax xs < length xs"
    unfolding argmax_def using ex by (rule length_takeWhile_lt)
  have at: "\<not> xs ! argmax xs < ?m"
    unfolding argmax_def using nth_length_takeWhile [of "\<lambda>x. x < ?m" xs] lt
    by (simp add: argmax_def)
  have eq: "xs ! argmax xs = ?m" using at ge lt by (meson nth_mem le_neq_implies_less)
  have before: "\<forall>j<argmax xs. xs ! j < ?m"
    unfolding argmax_def using takeWhile_nth [of _ "\<lambda>x. x < ?m" xs]
    by (metis nth_mem set_takeWhileD)
  show ?thesis using lt eq ge before \<open>0 < ?m\<close> by simp
qed

text \<open>
  For a pattern that no proper suffix of itself starts again (no border), scanning past a
  counted occurrence skips no other one, and \<open>str_count\<close> is the number of positions at
  which the pattern starts. None of the six format names has a border.
\<close>

lemma occ_bound:
  assumes "p \<noteq> []" "prefix p (drop i s)"
  shows "i < length s"
proof (rule ccontr)
  assume "\<not> i < length s"
  then have "drop i s = []" by simp
  with assms show False by simp
qed

lemma occ_finite: "p \<noteq> [] \<Longrightarrow> finite {i. prefix p (drop i s)}"
  by (rule finite_subset [of _ "{..<length s}"]) (auto dest: occ_bound)

lemma no_overlap:
  assumes bf: "\<forall>i. 0 < i \<and> i < length p \<longrightarrow> \<not> prefix (drop i p) p"
    and p0: "prefix p s" and pi: "prefix p (drop i s)" and i: "0 < i"
  shows "length p \<le> i"
proof (rule ccontr)
  assume "\<not> length p \<le> i"
  then have lt: "i < length p" by simp
  from p0 obtain r where s: "s = p @ r" by (auto simp: prefix_def)
  with lt have d: "drop i s = drop i p @ r" by simp
  have "prefix (drop i p) (drop i s)" unfolding d by simp
  with pi have "prefix p (drop i p) \<or> prefix (drop i p) p" by (rule prefix_same_cases)
  moreover have "\<not> prefix p (drop i p)"
  proof
    assume "prefix p (drop i p)"
    then have "length p \<le> length (drop i p)" by (rule prefix_length_le)
    with i lt show False by simp
  qed
  ultimately have "prefix (drop i p) p" by simp
  with bf i lt show False by blast
qed

lemma str_count_card:
  assumes ne: "p \<noteq> []"
    and bf: "\<forall>i. 0 < i \<and> i < length p \<longrightarrow> \<not> prefix (drop i p) p"
  shows "str_count s p = card {i. prefix p (drop i s)}"
proof (induction s rule: length_induct)
  case (1 s)
  show ?case
  proof (cases s)
    case Nil
    with ne show ?thesis by (simp add: str_count.simps)
  next
    case (Cons c cs)
    show ?thesis
    proof (cases "prefix p s")
      case True
      let ?n = "length p"
      let ?B = "{i. prefix p (drop i (drop ?n s))}"
      from ne have n: "0 < ?n" by simp
      from Cons n have "length (drop ?n s) < length s" by simp
      with 1 have ih: "str_count (drop ?n s) p = card ?B" by blast
      have "{i. prefix p (drop i s)} = insert 0 ((\<lambda>i. i + ?n) ` ?B)"
      proof (intro set_eqI iffI)
        fix i assume "i \<in> {i. prefix p (drop i s)}"
        then have pi: "prefix p (drop i s)" by simp
        show "i \<in> insert 0 ((\<lambda>i. i + ?n) ` ?B)"
        proof (cases "i = 0")
          case True then show ?thesis by simp
        next
          case False
          then have "?n \<le> i" using no_overlap [OF bf True pi] by simp
          then have "i = (i - ?n) + ?n" by simp
          moreover have "i - ?n \<in> ?B" using pi \<open>?n \<le> i\<close> by simp
          ultimately show ?thesis by blast
        qed
      next
        fix i assume "i \<in> insert 0 ((\<lambda>i. i + ?n) ` ?B)"
        then show "i \<in> {i. prefix p (drop i s)}" using True by (auto simp: add.commute)
      qed
      moreover have "card (insert 0 ((\<lambda>i. i + ?n) ` ?B)) = Suc (card ?B)"
      proof -
        have "finite ?B" by (rule occ_finite [OF ne])
        then have "finite ((\<lambda>i. i + ?n) ` ?B)" by (rule finite_imageI)
        moreover have "0 \<notin> (\<lambda>i. i + ?n) ` ?B" using n by auto
        ultimately have "card (insert 0 ((\<lambda>i. i + ?n) ` ?B)) = Suc (card ((\<lambda>i. i + ?n) ` ?B))"
          by simp
        moreover have "card ((\<lambda>i. i + ?n) ` ?B) = card ?B"
          by (rule card_image) (simp add: inj_on_def)
        ultimately show ?thesis by simp
      qed
      moreover have "str_count s p = Suc (str_count (drop ?n s) p)"
        using Cons True ne by (simp add: str_count.simps)
      ultimately show ?thesis using ih by simp
    next
      case False
      let ?B = "{i. prefix p (drop i cs)}"
      from Cons 1 have ih: "str_count cs p = card ?B" by simp
      have "{i. prefix p (drop i s)} = Suc ` ?B"
      proof (intro set_eqI iffI)
        fix i assume "i \<in> {i. prefix p (drop i s)}"
        then have pi: "prefix p (drop i s)" by simp
        with False obtain j where "i = Suc j" by (cases i) auto
        with pi Cons show "i \<in> Suc ` ?B" by simp
      next
        fix i assume "i \<in> Suc ` ?B"
        then show "i \<in> {i. prefix p (drop i s)}" using Cons by auto
      qed
      moreover have "card (Suc ` ?B) = card ?B" by (rule card_image) simp
      moreover have "str_count s p = str_count cs p"
        using Cons False ne by (simp add: str_count.simps)
      ultimately show ?thesis using ih by simp
    qed
  qed
qed

lemma no_border_check:
  "list_all (\<lambda>i. \<not> prefix (drop i p) p) [1..<length p]
   \<Longrightarrow> \<forall>i. 0 < i \<and> i < length p \<longrightarrow> \<not> prefix (drop i p) p"
  by (auto simp: list_all_iff)

lemma MTGFORMATS_no_border:
  "list_all (\<lambda>f. f \<noteq> [] \<and> (\<forall>i. 0 < i \<and> i < length f \<longrightarrow> \<not> prefix (drop i f) f)) MTGFORMATS"
  unfolding MTGFORMATS_def list.pred_inject
  by (intro conjI no_border_check) (simp_all add: upt_rec)

lemma str_count_MTGFORMATS:
  assumes "f \<in> set MTGFORMATS"
  shows "str_count s f = card {i. prefix f (drop i s)}"
proof -
  from assms MTGFORMATS_no_border
  have "f \<noteq> []" and "\<forall>i. 0 < i \<and> i < length f \<longrightarrow> \<not> prefix (drop i f) f"
    unfolding list_all_iff by blast+
  then show ?thesis by (rule str_count_card)
qed

lemma length_MTGFORMATS: "length MTGFORMATS = 6"
  by (simp add: MTGFORMATS_def)

lemma sum_list_zero_iff_nat: "sum_list (xs::nat list) = 0 \<longleftrightarrow> (\<forall>x\<in>set xs. x = 0)"
  by (induction xs) auto

lemma all_lt_6:
  "(\<forall>j<(6::nat). P j) \<longleftrightarrow> P 0 \<and> P 1 \<and> P 2 \<and> P 3 \<and> P 4 \<and> P 5"
proof
  assume "\<forall>j<6. P j" then show "P 0 \<and> P 1 \<and> P 2 \<and> P 3 \<and> P 4 \<and> P 5" by simp
next
  assume a: "P 0 \<and> P 1 \<and> P 2 \<and> P 3 \<and> P 4 \<and> P 5"
  show "\<forall>j<6. P j"
  proof (intro allI impI)
    fix j :: nat assume "j < 6"
    then have "j = 0 \<or> j = 1 \<or> j = 2 \<or> j = 3 \<or> j = 4 \<or> j = 5" by arith
    with a show "P j" by blast
  qed
qed

lemma all_lt_5:
  "(\<forall>j<(5::nat). P j) \<longleftrightarrow> P 0 \<and> P 1 \<and> P 2 \<and> P 3 \<and> P 4"
proof
  assume "\<forall>j<5. P j" then show "P 0 \<and> P 1 \<and> P 2 \<and> P 3 \<and> P 4" by simp
next
  assume a: "P 0 \<and> P 1 \<and> P 2 \<and> P 3 \<and> P 4"
  show "\<forall>j<5. P j"
  proof (intro allI impI)
    fix j :: nat assume "j < 5"
    then have "j = 0 \<or> j = 1 \<or> j = 2 \<or> j = 3 \<or> j = 4" by arith
    with a show "P j" by blast
  qed
qed

text \<open>
  The resolution step without the index arithmetic: when the sum is positive and the
  maximum equals it, the key of the first entry that holds the maximum.
\<close>

lemma resolve_None:
  "resolve None known =
     (if 0 < sum_list (values_of known)
         \<and> Max (set (values_of known)) = sum_list (values_of known)
      then map_option fst (find (\<lambda>(k, n). n = Max (set (values_of known))) known)
      else None)"
proof (cases "sum_list (values_of known) = 0")
  case True
  show ?thesis by (simp add: resolve_def Let_def True del: sum_list_eq_0_iff)
next
  case False
  let ?v = "values_of known"
  let ?i = "argmax ?v"
  from argmax_props [OF False] have i: "?i < length ?v"
    and ge: "\<forall>j<length ?v. ?v ! j \<le> ?v ! ?i" and lt: "\<forall>j<?i. ?v ! j < ?v ! ?i"
    by blast+
  have mx: "Max (set ?v) = ?v ! ?i"
  proof (rule Max_eqI)
    show "finite (set ?v)" by simp
    show "?v ! ?i \<in> set ?v" using i by simp
    fix y assume "y \<in> set ?v"
    then show "y \<le> ?v ! ?i" using ge by (auto simp: in_set_conv_nth)
  qed
  have il: "?i < length known" using i by (simp add: values_of_def)
  have sn: "\<And>j. j < length known \<Longrightarrow> snd (known ! j) = ?v ! j" by (simp add: values_of_def)
  have "find (\<lambda>(k, n). n = ?v ! ?i) known = Some (known ! ?i)"
    unfolding find_Some_iff
  proof (intro exI [of _ ?i] conjI allI impI)
    show "?i < length known" by (rule il)
    show "case known ! ?i of (k, n) \<Rightarrow> n = ?v ! ?i"
      using sn [OF il] by (simp add: case_prod_unfold)
    show "known ! ?i = known ! ?i" ..
    fix j assume j: "j < ?i"
    then have "j < length known" using il by simp
    from sn [OF this] lt j show "\<not> (case known ! j of (k, n) \<Rightarrow> n = ?v ! ?i)"
      by (auto simp: case_prod_unfold)
  qed
  then have fnd: "map_option fst (find (\<lambda>(k, n). n = ?v ! ?i) known) = Some (keys known ! ?i)"
    using il by (simp add: keys_def)
  have res: "resolve None known =
      (if ?v ! ?i = sum_list ?v then Some (keys known ! ?i) else None)"
    using False by (simp add: resolve_def Let_def del: sum_list_eq_0_iff)
  have pos: "0 < sum_list ?v" using False by linarith
  show ?thesis
    unfolding res mx fnd using pos by (simp del: sum_list_eq_0_iff)
qed

lemma resolve_Some: "resolve (Some p) known = None"
  by (simp add: resolve_def)

text \<open>The keys of the accumulator grow by exactly the observed formats.\<close>

lemma set_keys_count_format: "set (keys (count_format f known)) = insert f (set (keys known))"
  by (auto simp: keys_count_format)

lemma keys_process_block:
  "set (keys (snd (process_block sit txt bf known fmt)))
     = set (keys known) \<union> set (observed sit fmt (Block txt bf))"
proof (cases fmt)
  case (Some f)
  then show ?thesis by (simp add: process_block_def)
next
  case None
  show ?thesis
  proof (cases "sit \<and> sum_list (map (str_count (lower txt)) MTGFORMATS) \<noteq> 0")
    case True
    with None show ?thesis
      by (simp add: process_block_def text_match_def Let_def set_keys_count_format
          del: sum_list_eq_0_iff)
  next
    case False
    then have "process_block sit txt bf known None = (bf, known)"
      by (cases sit) (simp_all add: process_block_def Let_def del: sum_list_eq_0_iff)
    moreover from False have "observed sit None (Block txt bf) = []"
      by (cases sit) (simp_all add: text_match_def Let_def del: sum_list_eq_0_iff)
    ultimately show ?thesis using None by simp
  qed
qed

lemma keys_process_decklist:
  "set (keys (snd (process_decklist df known fmt)))
     = set (keys known) \<union> set (observed sit fmt (Decklist df))"
  by (auto simp: process_decklist_def set_keys_count_format split: option.splits)

lemma keys_process:
  "set (keys (snd (process_content sit c known fmt)))
     = set (keys known) \<union> set (observed sit fmt c)"
  "set (keys (snd (process_section sit' t sf cs' known' fmt')))
     = set (keys known') \<union> set (observed sit' fmt' (Section t sf cs'))"
  "set (keys (snd (process_children sit'' cs known'' fmt'')))
     = set (keys known'') \<union> set (concat (map (observed sit'' fmt'') cs))"
proof (induction sit c known fmt and sit' t sf cs' known' fmt' and sit'' cs known'' fmt''
    rule: process_content_process_section_process_children.induct)
  case (1 sit t sf cs known fmt)
  then show ?case by simp
next
  case (2 sit tx bf known fmt)
  obtain bf' k' where pb: "process_block sit tx bf known fmt = (bf', k')"
    by (cases "process_block sit tx bf known fmt")
  then have "snd (process_content sit (Block tx bf) known fmt) = k'" by simp
  moreover from pb keys_process_block [of sit tx bf known fmt]
  have "set (keys k') = set (keys known) \<union> set (observed sit fmt (Block tx bf))"
    by (simp only: snd_conv)
  ultimately show ?case by (simp only:)
next
  case (3 sit df known fmt)
  obtain df' k' where pd: "process_decklist df known fmt = (df', k')"
    by (cases "process_decklist df known fmt")
  then have "snd (process_content sit (Decklist df) known fmt) = k'" by simp
  moreover from pd keys_process_decklist [of df known fmt sit]
  have "set (keys k') = set (keys known) \<union> set (observed sit fmt (Decklist df))"
    by (simp only: snd_conv)
  ultimately show ?case by (simp only:)
next
  case (4 sit known fmt)
  show ?case by simp
next
  case (5 sit t sf cs known fmt)
  show ?case
  proof (cases fmt)
    case (Some f)
    with 5 [of "(Some f, known)" "Some f" known] show ?thesis
      by (simp add: case_prod_unfold Let_def)
  next
    case None
    show ?thesis
    proof (cases "check_format_in_title t")
      case N: None
      with None 5 [of "(None, known)" None known] show ?thesis
        by (simp add: case_prod_unfold Let_def)
    next
      case (Some g)
      with None 5 [of "(Some g, count_format g known)" "Some g" "count_format g known"]
      show ?thesis
        by (simp add: case_prod_unfold Let_def set_keys_count_format)
    qed
  qed
next
  case (6 sit known fmt)
  show ?case by simp
next
  case (7 sit c cs known fmt)
  obtain c' known1 where c: "process_content sit c known fmt = (c', known1)"
    by (cases "process_content sit c known fmt")
  obtain cs' known2 where cs: "process_children sit cs known1 fmt = (cs', known2)"
    by (cases "process_children sit cs known1 fmt")
  from 7(1) c have 1: "set (keys known1) = set (keys known) \<union> set (observed sit fmt c)"
    by simp
  from 7(2) [of "(c', known1)" c' known1] c cs
  have 2: "set (keys known2) = set (keys known1) \<union> set (concat (map (observed sit fmt) cs))"
    by simp
  from 1 2 c cs show ?case by (simp add: Un_assoc)
qed

lemma keys_setitem:
  "keys (setitem k v kf) = (if k \<in> set (keys kf) then keys kf else keys kf @ [k])"
  by (induction kf) (auto simp: setitem_def keys_def)

lemma values_setitem_zero: "set (values_of (setitem k 0 kf)) \<subseteq> insert 0 (set (values_of kf))"
  by (force simp: setitem_def values_of_def split: if_splits)

lemma keys_fold_setitem:
  "set (keys (fold (\<lambda>f kf. setitem f 0 kf) fs kf)) = set (keys kf) \<union> set fs"
  by (induction fs arbitrary: kf) (auto simp: keys_setitem)

lemma values_fold_setitem:
  "set (values_of (fold (\<lambda>f kf. setitem f 0 kf) fs kf)) \<subseteq> insert 0 (set (values_of kf))"
proof (induction fs arbitrary: kf)
  case Nil
  show ?case by auto
next
  case (Cons f fs)
  from Cons [of "setitem f 0 kf"] values_setitem_zero [of f kf] show ?case by auto
qed

lemma keys_seed: "set (keys (seed fs)) = set fs"
  using keys_fold_setitem [of fs "[]"] by (simp add: seed_def keys_def)

lemma values_seed: "set (values_of (seed fs)) \<subseteq> {0}"
  using values_fold_setitem [of fs "[]"] by (simp add: seed_def values_of_def)

lemma process_article_fields:
  "tags (process_article sit a) = tags a"
  "title (process_article sit a) = title a"
  "contents (process_article sit a) = fst (traverse sit a)"
  "formats (process_article sit a) = keys (snd (traverse sit a))"
  by (simp_all add: process_article_def set_format_def case_prod_unfold Let_def
      split: option.splits)

text \<open>
  A second run under a non-null priority format: every decklist without a format was
  stamped with it, so the second run observes it wherever the first run met such a
  decklist, and nothing else changes in the keys.
\<close>

lemma stamp_image:
  "{d. Some d \<in> stamp p ` D} = {d. Some d \<in> D} \<union> (if None \<in> D then {p} else {})"
proof -
  have "Some d \<in> stamp p ` D \<longleftrightarrow> Some d \<in> D \<or> (d = p \<and> None \<in> D)" for d
  proof
    assume "Some d \<in> stamp p ` D"
    then obtain x where x: "x \<in> D" "stamp p x = Some d" by auto
    then show "Some d \<in> D \<or> (d = p \<and> None \<in> D)"
      by (cases x) (auto simp: stamp_def)
  next
    assume "Some d \<in> D \<or> (d = p \<and> None \<in> D)"
    then show "Some d \<in> stamp p ` D"
    proof
      assume "Some d \<in> D"
      then have "stamp p (Some d) \<in> stamp p ` D" by (rule imageI)
      then show ?thesis by (simp add: stamp_def)
    next
      assume "d = p \<and> None \<in> D"
      then have "stamp p None \<in> stamp p ` D" by (intro imageI) simp
      with \<open>d = p \<and> None \<in> D\<close> show ?thesis by (simp add: stamp_def)
    qed
  qed
  then show ?thesis by auto
qed

lemma observed_override:
  "set (observed sit (Some p) c) = {d. Some d \<in> set (decklist_formats c)}"
proof (induction c)
  case (Section t sf cs)
  then show ?case by auto
next
  case (Block tx bf)
  show ?case by simp
next
  case (Decklist df)
  show ?case by (cases df) auto
next
  case Other
  show ?case by simp
qed

lemma decklists_stamped:
  "\<forall>p. fmt = Some p \<longrightarrow>
      set (decklist_formats (fst (process_content sit c known fmt)))
        = stamp p ` set (decklist_formats c)"
  "\<forall>p. fmt' = Some p \<longrightarrow>
      set (decklist_formats (fst (process_section sit' t sf cs' known' fmt')))
        = stamp p ` set (concat (map decklist_formats cs'))"
  "\<forall>p. fmt'' = Some p \<longrightarrow>
      set (concat (map decklist_formats (fst (process_children sit'' cs known'' fmt''))))
        = stamp p ` set (concat (map decklist_formats cs))"
proof (induction sit c known fmt and sit' t sf cs' known' fmt' and sit'' cs known'' fmt''
    rule: process_content_process_section_process_children.induct)
  case (1 sit t sf cs known fmt)
  then show ?case by simp
next
  case (2 sit tx bf known fmt)
  show ?case by (simp add: case_prod_unfold Let_def)
next
  case (3 sit df known fmt)
  show ?case
    by (cases df) (simp_all add: case_prod_unfold Let_def process_decklist_def stamp_def)
next
  case (4 sit known fmt)
  show ?case by simp
next
  case (5 sit t sf cs known fmt)
  show ?case
  proof (intro allI impI)
    fix p assume p: "fmt = Some p"
    from 5 [of "(Some p, known)" "Some p" known] p
    have "set (concat (map decklist_formats (fst (process_children sit cs known (Some p)))))
        = stamp p ` set (concat (map decklist_formats cs))" by simp
    with p show "set (decklist_formats (fst (process_section sit t sf cs known fmt)))
        = stamp p ` set (concat (map decklist_formats cs))"
      by (simp add: case_prod_unfold Let_def)
  qed
next
  case (6 sit known fmt)
  show ?case by simp
next
  case (7 sit c cs known fmt)
  obtain c' known1 where c: "process_content sit c known fmt = (c', known1)"
    by (cases "process_content sit c known fmt")
  obtain cs' known2 where cs: "process_children sit cs known1 fmt = (cs', known2)"
    by (cases "process_children sit cs known1 fmt")
  show ?case
  proof (intro allI impI)
    fix p assume p: "fmt = Some p"
    from 7(1) c p have 1: "set (decklist_formats c') = stamp p ` set (decklist_formats c)"
      by simp
    from 7(2) [of "(c', known1)" c' known1] c cs p
    have 2: "set (concat (map decklist_formats cs'))
        = stamp p ` set (concat (map decklist_formats cs))" by simp
    from 1 2 have "set (concat (map decklist_formats (c' # cs')))
        = stamp p ` set (concat (map decklist_formats (c # cs)))"
      by (simp add: image_Un)
    with c cs show "set (concat (map decklist_formats
          (fst (process_children sit (c # cs) known fmt))))
        = stamp p ` set (concat (map decklist_formats (c # cs)))" by simp
  qed
qed

lemma observed_children_override:
  "set (concat (map (observed sit (Some p)) cs))
     = {d. Some d \<in> set (concat (map decklist_formats cs))}"
  by (auto simp: observed_override)

lemma keys_second_run:
  assumes "process_children sit cs known (Some p) = (ds, known1)"
    and "process_children sit ds known (Some p) = (es, known2)"
  shows "set (keys known2)
     = set (keys known1) \<union> (if None \<in> set (concat (map decklist_formats cs)) then {p} else {})"
proof -
  let ?D = "set (concat (map decklist_formats cs))"
  have "set (keys known1) = set (keys known) \<union> set (concat (map (observed sit (Some p)) cs))"
    using keys_process(3) [of sit cs known "Some p"] assms(1) by simp
  then have k1: "set (keys known1) = set (keys known) \<union> {d. Some d \<in> ?D}"
    by (simp only: observed_children_override)
  have d: "set (concat (map decklist_formats ds)) = stamp p ` ?D"
    using decklists_stamped(3) [of "Some p" sit cs known] assms(1) by simp
  have "set (keys known2) = set (keys known) \<union> set (concat (map (observed sit (Some p)) ds))"
    using keys_process(3) [of sit ds known "Some p"] assms(2) by simp
  then have k2: "set (keys known2) = set (keys known) \<union> {d. Some d \<in> stamp p ` ?D}"
    by (simp only: observed_children_override d)
  show ?thesis unfolding k1 k2 stamp_image by (simp only: Un_assoc)
qed


lemma fst_shape: "fst ` set (shape k) = set (keys k)"
  by (force simp: shape_def keys_def)

lemma keys_shape: "keys k = map fst (shape k)"
  by (simp add: shape_def keys_def case_prod_unfold)

lemma length_shape: "length (shape k) = length k"
  by (simp add: shape_def)

lemma nth_shape: "i < length k \<Longrightarrow> shape k ! i = (fst (k ! i), 0 < snd (k ! i))"
  by (simp add: shape_def case_prod_unfold)

lemma shape_count_format:
  "shape (count_format g k) =
     map (\<lambda>(key, b). if key = g then (key, True) else (key, b))
       (if g \<in> fst ` set (shape k) then shape k else shape k @ [(g, False)])"
proof (cases "g \<in> set (keys k)")
  case True
  then have cf: "count_format g k = add_one g k" by (simp add: count_format_def setdefault_def)
  show ?thesis unfolding fst_shape cf using True
    by (simp add: add_one_def shape_def case_prod_unfold)
next
  case False
  then have cf: "count_format g k = add_one g (k @ [(g, 0)])"
    by (simp add: count_format_def setdefault_def)
  show ?thesis unfolding fst_shape cf using False
    by (simp add: add_one_def shape_def case_prod_unfold)
qed

lemma map_fst_mark:
  "map fst (map (\<lambda>(key, b). if key = g then (key, True) else (key, b)) sh) = map fst sh"
  by (induction sh) auto

lemma False_in_mark:
  "(f, False) \<in> set (map (\<lambda>(key, b). if key = g then (key, True) else (key, b)) sh)
     \<longleftrightarrow> f \<noteq> g \<and> (f, False) \<in> set sh"
  by (induction sh) (auto split: if_splits)

lemma shape_count_cong:
  "shape k2 = shape k1 \<Longrightarrow> shape (count_format g k2) = shape (count_format g k1)"
  by (simp only: shape_count_format)

lemma counted_cong: "shape k2 = shape k1 \<Longrightarrow> counted f k2 = counted f k1"
  by (simp only: counted_def)

lemma counted_iff:
  "counted f k \<longleftrightarrow> f \<in> set (map fst (shape k)) \<and> (f, False) \<notin> set (shape k)"
  by (simp add: counted_def)

lemma counted_count_format:
  "counted f (count_format g k) \<longleftrightarrow> f = g \<or> counted f k"
proof (cases "g \<in> fst ` set (shape k)")
  case True
  then have "shape (count_format g k)
      = map (\<lambda>(key, b). if key = g then (key, True) else (key, b)) (shape k)"
    by (simp add: shape_count_format)
  then have "counted f (count_format g k)
      \<longleftrightarrow> f \<in> set (map fst (shape k)) \<and> \<not> (f \<noteq> g \<and> (f, False) \<in> set (shape k))"
    by (simp only: counted_iff map_fst_mark False_in_mark)
  with True show ?thesis by (auto simp: counted_iff)
next
  case False
  then have "shape (count_format g k)
      = map (\<lambda>(key, b). if key = g then (key, True) else (key, b)) (shape k @ [(g, False)])"
    by (simp add: shape_count_format)
  then have "counted f (count_format g k)
      \<longleftrightarrow> f \<in> set (map fst (shape k @ [(g, False)]))
          \<and> \<not> (f \<noteq> g \<and> (f, False) \<in> set (shape k @ [(g, False)]))"
    by (simp only: counted_iff map_fst_mark False_in_mark)
  with False show ?thesis by (auto simp: counted_iff)
qed

lemma counted_shape_fix:
  assumes "counted f k"
  shows "shape (count_format f k) = shape k"
proof -
  from assms have m: "f \<in> fst ` set (shape k)" and n: "(f, False) \<notin> set (shape k)"
    by (simp_all add: counted_def)
  have "map (\<lambda>(key, b). if key = f then (key, True) else (key, b)) (shape k) = shape k"
  proof (rule map_idI)
    fix x assume x: "x \<in> set (shape k)"
    obtain key b where kb: "x = (key, b)" by (cases x)
    show "(case x of (key, b) \<Rightarrow> if key = f then (key, True) else (key, b)) = x"
    proof (cases "key = f")
      case True
      with x kb n have "b" by (cases b) auto
      with True kb show ?thesis by simp
    next
      case False
      with kb show ?thesis by simp
    qed
  qed
  with m show ?thesis by (simp add: shape_count_format)
qed

text \<open>
  A second run under a null priority format: an override is then the title match of an
  enclosing section, counted when it was found, so counting it again for a stamped
  decklist changes no key and turns no zero count positive.
\<close>

lemma process_block_acc:
  "(\<forall>b k. snd (process_block sit tx b k fmt) = k)
   \<or> (\<exists>g. \<forall>b k. snd (process_block sit tx b k fmt) = count_format g k)"
proof (cases fmt)
  case (Some f)
  then show ?thesis by (simp add: process_block_def)
next
  case None
  show ?thesis
  proof (cases "sit \<and> sum_list (map (str_count (lower tx)) MTGFORMATS) \<noteq> 0")
    case True
    with None have "\<forall>b k. snd (process_block sit tx b k fmt)
        = count_format (MTGFORMATS ! argmax (map (str_count (lower tx)) MTGFORMATS)) k"
      by (simp add: process_block_def Let_def del: sum_list_eq_0_iff)
    then show ?thesis by blast
  next
    case False
    with None have "\<forall>b k. snd (process_block sit tx b k fmt) = k"
      by (cases sit) (simp_all add: process_block_def Let_def del: sum_list_eq_0_iff)
    then show ?thesis by blast
  qed
qed

lemma counted_process:
  "\<forall>f. counted f known \<longrightarrow> counted f (snd (process_content sit c known fmt))"
  "\<forall>f. counted f known' \<longrightarrow> counted f (snd (process_section sit' t sf cs' known' fmt'))"
  "\<forall>f. counted f known'' \<longrightarrow> counted f (snd (process_children sit'' cs known'' fmt''))"
proof (induction sit c known fmt and sit' t sf cs' known' fmt' and sit'' cs known'' fmt''
    rule: process_content_process_section_process_children.induct)
  case (1 sit t sf cs known fmt)
  then show ?case by simp
next
  case (2 sit tx bf known fmt)
  have s: "snd (process_content sit (Block tx bf) known fmt)
      = snd (process_block sit tx bf known fmt)" by (simp add: case_prod_unfold Let_def)
  from process_block_acc [of sit tx fmt] show ?case
    unfolding s by (auto simp: counted_count_format)
next
  case (3 sit df known fmt)
  show ?case
    by (cases df) (simp_all add: case_prod_unfold Let_def process_decklist_def
        counted_count_format)
next
  case (4 sit known fmt)
  show ?case by simp
next
  case (5 sit t sf cs known fmt)
  show ?case
  proof (cases fmt)
    case (Some f)
    with 5 [of "(Some f, known)" "Some f" known] show ?thesis
      by (simp add: case_prod_unfold Let_def)
  next
    case None
    show ?thesis
    proof (cases "check_format_in_title t")
      case N: None
      with None 5 [of "(None, known)" None known] show ?thesis
        by (simp add: case_prod_unfold Let_def)
    next
      case (Some g)
      with None 5 [of "(Some g, count_format g known)" "Some g" "count_format g known"]
      show ?thesis
        by (simp add: case_prod_unfold Let_def counted_count_format)
    qed
  qed
next
  case (6 sit known fmt)
  show ?case by simp
next
  case (7 sit c cs known fmt)
  obtain c' known1 where c: "process_content sit c known fmt = (c', known1)"
    by (cases "process_content sit c known fmt")
  obtain cs' known2 where cs: "process_children sit cs known1 fmt = (cs', known2)"
    by (cases "process_children sit cs known1 fmt")
  from 7(1) c have 1: "\<forall>f. counted f known \<longrightarrow> counted f known1" by simp
  from 7(2) [of "(c', known1)" c' known1] c cs
  have 2: "\<forall>f. counted f known1 \<longrightarrow> counted f known2" by simp
  from 1 2 c cs show ?case by simp
qed


lemma second_run_shape:
  "\<forall>k2. shape k2 = shape known \<longrightarrow> (\<forall>f. fmt = Some f \<longrightarrow> counted f known) \<longrightarrow>
      shape (snd (process_content sit (fst (process_content sit c known fmt)) k2 fmt))
        = shape (snd (process_content sit c known fmt))"
  "\<forall>k2. shape k2 = shape known' \<longrightarrow> (\<forall>f. fmt' = Some f \<longrightarrow> counted f known') \<longrightarrow>
      shape (snd (process_content sit' (fst (process_section sit' t sf cs' known' fmt')) k2 fmt'))
        = shape (snd (process_section sit' t sf cs' known' fmt'))"
  "\<forall>k2. shape k2 = shape known'' \<longrightarrow> (\<forall>f. fmt'' = Some f \<longrightarrow> counted f known'') \<longrightarrow>
      shape (snd (process_children sit'' (fst (process_children sit'' cs known'' fmt'')) k2 fmt''))
        = shape (snd (process_children sit'' cs known'' fmt''))"
proof (induction sit c known fmt and sit' t sf cs' known' fmt' and sit'' cs known'' fmt''
    rule: process_content_process_section_process_children.induct)
  case (1 sit t sf cs known fmt)
  then show ?case by simp
next
  case (2 sit tx bf known fmt)
  show ?case
  proof (intro allI impI)
    fix k2 assume sh: "shape k2 = shape known"
    obtain bf' k1 where pb: "process_block sit tx bf known fmt = (bf', k1)"
      by (cases "process_block sit tx bf known fmt")
    have l: "snd (process_content sit (Block tx bf) known fmt)
        = snd (process_block sit tx bf known fmt)"
      and r: "snd (process_content sit (fst (process_content sit (Block tx bf) known fmt)) k2 fmt)
        = snd (process_block sit tx bf' k2 fmt)"
      using pb by (simp_all add: case_prod_unfold Let_def)
    from process_block_acc [of sit tx fmt]
    have "shape (snd (process_block sit tx bf' k2 fmt))
        = shape (snd (process_block sit tx bf known fmt))"
    proof
      assume "\<forall>b k. snd (process_block sit tx b k fmt) = k"
      with sh show ?thesis by simp
    next
      assume "\<exists>g. \<forall>b k. snd (process_block sit tx b k fmt) = count_format g k"
      then obtain g where "\<forall>b k. snd (process_block sit tx b k fmt) = count_format g k" ..
      with shape_count_cong [OF sh, of g] show ?thesis by simp
    qed
    then show "shape (snd (process_content sit
          (fst (process_content sit (Block tx bf) known fmt)) k2 fmt))
        = shape (snd (process_content sit (Block tx bf) known fmt))"
      by (simp only: l r)
  qed
next
  case (3 sit df known fmt)
  show ?case
  proof (intro allI impI)
    fix k2 assume sh: "shape k2 = shape known"
      and cf: "\<forall>f. fmt = Some f \<longrightarrow> counted f known"
    show "shape (snd (process_content sit
          (fst (process_content sit (Decklist df) known fmt)) k2 fmt))
        = shape (snd (process_content sit (Decklist df) known fmt))"
    proof (cases df)
      case (Some d)
      with shape_count_cong [OF sh, of d] show ?thesis
        by (simp add: process_decklist_def)
    next
      case None
      show ?thesis
      proof (cases fmt)
        case N: None
        with None sh show ?thesis by (simp add: process_decklist_def)
      next
        case (Some f)
        with cf have "counted f known" by simp
        with counted_cong [OF sh] have "counted f k2" by simp
        then have "shape (count_format f k2) = shape k2" by (rule counted_shape_fix)
        with None Some sh show ?thesis by (simp add: process_decklist_def)
      qed
    qed
  qed
next
  case (4 sit known fmt)
  show ?case by simp
next
  case (5 sit t sf cs known fmt)
  show ?case
  proof (intro allI impI)
    fix k2 assume sh: "shape k2 = shape known"
      and cf: "\<forall>f. fmt = Some f \<longrightarrow> counted f known"
    show "shape (snd (process_content sit
          (fst (process_section sit t sf cs known fmt)) k2 fmt))
        = shape (snd (process_section sit t sf cs known fmt))"
    proof (cases fmt)
      case (Some f)
      with cf have "counted f known" by simp
      with 5 [of "(Some f, known)" "Some f" known] Some sh
      have "shape (snd (process_children sit
            (fst (process_children sit cs known (Some f))) k2 (Some f)))
          = shape (snd (process_children sit cs known (Some f)))" by simp
      with Some show ?thesis by (simp add: case_prod_unfold Let_def)
    next
      case None
      show ?thesis
      proof (cases "check_format_in_title t")
        case N: None
        with 5 [of "(None, known)" None known] None sh
        have "shape (snd (process_children sit
              (fst (process_children sit cs known None)) k2 None))
            = shape (snd (process_children sit cs known None))" by simp
        with None N show ?thesis by (simp add: case_prod_unfold Let_def)
      next
        case (Some g)
        have "shape (count_format g k2) = shape (count_format g known)"
          by (rule shape_count_cong [OF sh])
        moreover have "counted g (count_format g known)"
          by (simp add: counted_count_format)
        ultimately have "shape (snd (process_children sit
              (fst (process_children sit cs (count_format g known) (Some g)))
              (count_format g k2) (Some g)))
            = shape (snd (process_children sit cs (count_format g known) (Some g)))"
          using 5 [of "(Some g, count_format g known)" "Some g" "count_format g known"]
            None Some by simp
        with None Some show ?thesis by (simp add: case_prod_unfold Let_def)
      qed
    qed
  qed
next
  case (6 sit known fmt)
  show ?case by simp
next
  case (7 sit c cs known fmt)
  obtain c' known1 where c: "process_content sit c known fmt = (c', known1)"
    by (cases "process_content sit c known fmt")
  obtain cs' known2 where cs: "process_children sit cs known1 fmt = (cs', known2)"
    by (cases "process_children sit cs known1 fmt")
  show ?case
  proof (intro allI impI)
    fix k2 assume sh: "shape k2 = shape known"
      and cf: "\<forall>f. fmt = Some f \<longrightarrow> counted f known"
    obtain c'' k2a where c2: "process_content sit c' k2 fmt = (c'', k2a)"
      by (cases "process_content sit c' k2 fmt")
    from 7(1) sh cf
    have "shape (snd (process_content sit (fst (process_content sit c known fmt)) k2 fmt))
        = shape (snd (process_content sit c known fmt))" by blast
    with c c2 have s1: "shape k2a = shape known1" by simp
    from counted_process(1) [of known sit c fmt] c cf
    have cf1: "\<forall>f. fmt = Some f \<longrightarrow> counted f known1" by simp
    from 7(2) [of "(c', known1)" c' known1] c
    have "\<forall>k2. shape k2 = shape known1 \<longrightarrow> (\<forall>f. fmt = Some f \<longrightarrow> counted f known1) \<longrightarrow>
        shape (snd (process_children sit (fst (process_children sit cs known1 fmt)) k2 fmt))
          = shape (snd (process_children sit cs known1 fmt))" by simp
    with s1 cf1
    have "shape (snd (process_children sit (fst (process_children sit cs known1 fmt)) k2a fmt))
          = shape (snd (process_children sit cs known1 fmt))" by blast
    with cs have "shape (snd (process_children sit cs' k2a fmt)) = shape known2" by simp
    with c cs c2 show "shape (snd (process_children sit
          (fst (process_children sit (c # cs) known fmt)) k2 fmt))
        = shape (snd (process_children sit (c # cs) known fmt))"
      by (simp add: case_prod_unfold Let_def)
  qed
qed

text \<open>\<open>resolve\<close> reads only the shape of the accumulator.\<close>

lemma two_le_sum_list:
  fixes v :: "nat list"
  assumes "i < j" "j < length v"
  shows "v ! i + v ! j \<le> sum_list v"
proof -
  have "sum_list (take j v @ drop j v) = sum_list (take j v) + sum_list (drop j v)"
    by (rule sum_list_append)
  then have s: "sum_list v = sum_list (take j v) + sum_list (drop j v)" by simp
  have "take j v ! i \<le> sum_list (take j v)"
    by (rule elem_le_sum_list) (use assms in simp)
  then have a: "v ! i \<le> sum_list (take j v)" using assms by simp
  have "drop j v ! 0 \<le> sum_list (drop j v)"
    by (rule elem_le_sum_list) (use assms in simp)
  then have b: "v ! j \<le> sum_list (drop j v)" using assms by simp
  from s a b show ?thesis by linarith
qed

lemma others_zero:
  fixes v :: "nat list"
  assumes "a < length v" "v ! a = sum_list v" "j < length v" "j \<noteq> a"
  shows "v ! j = 0"
proof (cases "j < a")
  case True
  from two_le_sum_list [OF True assms(1)] assms(2) show ?thesis by simp
next
  case False
  with assms(4) have "a < j" by simp
  from two_le_sum_list [OF this assms(3)] assms(2) show ?thesis by simp
qed

lemma sum_single:
  fixes v :: "nat list"
  assumes a: "a < length v" and z: "\<forall>j<length v. j \<noteq> a \<longrightarrow> v ! j = 0"
  shows "sum_list v = v ! a"
proof -
  have v: "v = take a v @ v ! a # drop (Suc a) v" using a by (rule id_take_nth_drop)
  have "\<forall>x\<in>set (take a v). x = 0"
  proof
    fix x assume "x \<in> set (take a v)"
    then obtain i where "i < length (take a v)" "take a v ! i = x"
      by (auto simp: in_set_conv_nth)
    with a z show "x = 0" by auto
  qed
  then have t: "sum_list (take a v) = 0" by simp
  have "\<forall>x\<in>set (drop (Suc a) v). x = 0"
  proof
    fix x assume "x \<in> set (drop (Suc a) v)"
    then obtain i where i: "i < length (drop (Suc a) v)" "drop (Suc a) v ! i = x"
      by (auto simp: in_set_conv_nth)
    then have "Suc a + i < length v" "v ! (Suc a + i) = x" by auto
    with z show "x = 0" by auto
  qed
  then have d: "sum_list (drop (Suc a) v) = 0" by simp
  have "sum_list v = sum_list (take a v @ v ! a # drop (Suc a) v)" using v by simp
  also have "\<dots> = sum_list (take a v) + (v ! a + sum_list (drop (Suc a) v))"
    by (simp only: sum_list_append sum_list.Cons)
  finally show ?thesis using t d by simp
qed

lemma resolve_None_iff:
  "resolve None k = Some key \<longleftrightarrow>
     (\<exists>a<length k. fst (k ! a) = key \<and> 0 < snd (k ! a)
        \<and> (\<forall>j<length k. j \<noteq> a \<longrightarrow> snd (k ! j) = 0))"
proof
  let ?v = "values_of k"
  assume r: "resolve None k = Some key"
  have nz: "sum_list ?v \<noteq> 0"
  proof
    assume "sum_list ?v = 0"
    then have "resolve None k = None" by (simp add: resolve_def Let_def del: sum_list_eq_0_iff)
    with r show False by simp
  qed
  let ?a = "argmax ?v"
  from nz have res: "resolve None k
      = (if ?v ! ?a = sum_list ?v then Some (keys k ! ?a) else None)"
    by (simp add: resolve_def Let_def del: sum_list_eq_0_iff)
  with r have eq: "?v ! ?a = sum_list ?v" and key: "keys k ! ?a = key"
    by (simp_all split: if_splits)
  from argmax_props [OF nz] have a: "?a < length ?v" and pos: "0 < ?v ! ?a" by blast+
  have al: "?a < length k" using a by (simp add: values_of_def)
  have "\<forall>j<length k. j \<noteq> ?a \<longrightarrow> snd (k ! j) = 0"
  proof (intro allI impI)
    fix j assume j: "j < length k" "j \<noteq> ?a"
    then have "?v ! j = 0" using others_zero [OF a eq, of j] by (simp add: values_of_def)
    with j show "snd (k ! j) = 0" by (simp add: values_of_def)
  qed
  moreover have "fst (k ! ?a) = key" using key al by (simp add: keys_def)
  moreover have "0 < snd (k ! ?a)" using pos al by (simp add: values_of_def)
  ultimately show "\<exists>a<length k. fst (k ! a) = key \<and> 0 < snd (k ! a)
        \<and> (\<forall>j<length k. j \<noteq> a \<longrightarrow> snd (k ! j) = 0)"
    using al by blast
next
  let ?v = "values_of k"
  assume "\<exists>a<length k. fst (k ! a) = key \<and> 0 < snd (k ! a)
        \<and> (\<forall>j<length k. j \<noteq> a \<longrightarrow> snd (k ! j) = 0)"
  then obtain a where a: "a < length k" and key: "fst (k ! a) = key"
    and pos: "0 < snd (k ! a)" and z: "\<forall>j<length k. j \<noteq> a \<longrightarrow> snd (k ! j) = 0"
    by blast
  have av: "a < length ?v" using a by (simp add: values_of_def)
  have va: "?v ! a = snd (k ! a)" using a by (simp add: values_of_def)
  have zv: "\<forall>j<length ?v. j \<noteq> a \<longrightarrow> ?v ! j = 0" using z by (simp add: values_of_def)
  have sum: "sum_list ?v = ?v ! a" by (rule sum_single [OF av zv])
  have am: "argmax ?v = a"
  proof (rule argmax_first_max [OF av])
    show "\<forall>j<length ?v. ?v ! j \<le> ?v ! a"
    proof (intro allI impI)
      fix j assume "j < length ?v"
      with zv show "?v ! j \<le> ?v ! a" by (cases "j = a") auto
    qed
    show "\<forall>j<a. ?v ! j < ?v ! a"
    proof (intro allI impI)
      fix j assume "j < a"
      with zv av have "?v ! j = 0" by simp
      with pos va show "?v ! j < ?v ! a" by simp
    qed
  qed
  from pos va sum have nz: "sum_list ?v \<noteq> 0" by simp
  then have "resolve None k = (if ?v ! argmax ?v = sum_list ?v
      then Some (keys k ! argmax ?v) else None)"
    by (simp add: resolve_def Let_def del: sum_list_eq_0_iff)
  with am sum key a show "resolve None k = Some key" by (simp add: keys_def)
qed

lemma single_counted_transfer:
  fixes k1 k2 :: known_formats
  assumes len: "length k2 = length k1"
    and nth: "\<forall>i<length k1. fst (k2 ! i) = fst (k1 ! i)
        \<and> (0 < snd (k2 ! i)) = (0 < snd (k1 ! i))"
    and ex: "\<exists>a<length k1. fst (k1 ! a) = key \<and> 0 < snd (k1 ! a)
        \<and> (\<forall>j<length k1. j \<noteq> a \<longrightarrow> snd (k1 ! j) = 0)"
  shows "\<exists>a<length k2. fst (k2 ! a) = key \<and> 0 < snd (k2 ! a)
        \<and> (\<forall>j<length k2. j \<noteq> a \<longrightarrow> snd (k2 ! j) = 0)"
proof -
  from ex obtain a where a: "a < length k1" and key: "fst (k1 ! a) = key"
    and pos: "0 < snd (k1 ! a)" and z: "\<forall>j<length k1. j \<noteq> a \<longrightarrow> snd (k1 ! j) = 0"
    by blast
  have 1: "a < length k2" using a len by simp
  have 2: "fst (k2 ! a) = key" using nth a key by simp
  have 3: "0 < snd (k2 ! a)" using nth a pos by simp
  have 4: "\<forall>j<length k2. j \<noteq> a \<longrightarrow> snd (k2 ! j) = 0"
  proof (intro allI impI)
    fix j assume j: "j < length k2" "j \<noteq> a"
    with len z have "snd (k1 ! j) = 0" by simp
    moreover from j len nth have "(0 < snd (k2 ! j)) = (0 < snd (k1 ! j))" by simp
    ultimately show "snd (k2 ! j) = 0" by simp
  qed
  from 1 2 3 4 show ?thesis by blast
qed

lemma resolve_shape:
  assumes "shape k2 = shape k1"
  shows "resolve p k2 = resolve p k1"
proof (cases p)
  case (Some q)
  then show ?thesis by (simp add: resolve_Some)
next
  case None
  have "length (shape k2) = length (shape k1)" using assms by simp
  then have len: "length k2 = length k1" by (simp only: length_shape)
  have nth: "\<forall>i<length k1. fst (k2 ! i) = fst (k1 ! i)
      \<and> (0 < snd (k2 ! i)) = (0 < snd (k1 ! i))"
  proof (intro allI impI)
    fix i assume i: "i < length k1"
    with len have "shape k2 ! i = (fst (k2 ! i), 0 < snd (k2 ! i))" by (simp add: nth_shape)
    moreover from i have "shape k1 ! i = (fst (k1 ! i), 0 < snd (k1 ! i))"
      by (simp add: nth_shape)
    ultimately show "fst (k2 ! i) = fst (k1 ! i) \<and> (0 < snd (k2 ! i)) = (0 < snd (k1 ! i))"
      using assms by simp
  qed
  have nth': "\<forall>i<length k2. fst (k1 ! i) = fst (k2 ! i)
      \<and> (0 < snd (k1 ! i)) = (0 < snd (k2 ! i))"
    using nth len by simp
  have iff: "resolve None k2 = Some key \<longleftrightarrow> resolve None k1 = Some key" for key
  proof
    assume "resolve None k2 = Some key"
    then have "\<exists>a<length k2. fst (k2 ! a) = key \<and> 0 < snd (k2 ! a)
        \<and> (\<forall>j<length k2. j \<noteq> a \<longrightarrow> snd (k2 ! j) = 0)"
      by (simp only: resolve_None_iff)
    from single_counted_transfer [OF len [symmetric] nth' this]
    show "resolve None k1 = Some key" by (simp only: resolve_None_iff)
  next
    assume "resolve None k1 = Some key"
    then have "\<exists>a<length k1. fst (k1 ! a) = key \<and> 0 < snd (k1 ! a)
        \<and> (\<forall>j<length k1. j \<noteq> a \<longrightarrow> snd (k1 ! j) = 0)"
      by (simp only: resolve_None_iff)
    from single_counted_transfer [OF len nth this]
    show "resolve None k2 = Some key" by (simp only: resolve_None_iff)
  qed
  have "resolve None k2 = resolve None k1"
  proof (cases "resolve None k1")
    case N: None
    have "resolve None k2 = None"
    proof (rule ccontr)
      assume "resolve None k2 \<noteq> None"
      then obtain key where "resolve None k2 = Some key" by blast
      then have "resolve None k1 = Some key" by (simp only: iff)
      with N show False by simp
    qed
    with N show ?thesis by simp
  next
    case (Some key)
    then have "resolve None k2 = Some key" by (simp only: iff)
    with Some show ?thesis by simp
  qed
  with None show ?thesis by simp
qed

lemma second_run_shape_top:
  assumes "process_children sit cs k None = (ds, k1)"
    and "process_children sit ds k None = (es, k2)"
  shows "shape k2 = shape k1"
proof -
  from second_run_shape(3) [of k None sit cs]
  have "shape (snd (process_children sit (fst (process_children sit cs k None)) k None))
      = shape (snd (process_children sit cs k None))" by blast
  with assms show ?thesis by simp
qed

lemma second_traverse:
  "traverse sit (process_article sit a)
     = process_children sit (fst (traverse sit a)) (seed (tag_formats a)) (priority_format a)"
proof -
  have tf: "tag_formats (process_article sit a) = tag_formats a"
    by (simp add: tag_formats_def process_article_fields)
  have pf: "priority_format (process_article sit a) = priority_format a"
    by (simp add: priority_format_def tf process_article_fields Let_def)
  show ?thesis by (simp add: traverse_def [of sit "process_article sit a"] tf pf
        process_article_fields)
qed

lemma canonical_process_article:
  "canonical_format (process_article sit a) =
     (case resolve (priority_format a) (snd (traverse sit a)) of
        None \<Rightarrow> canonical_format a
      | Some f \<Rightarrow> Some f)"
  by (simp add: process_article_def set_format_def case_prod_unfold Let_def
      split: option.splits)

lemma second_priority:
  "priority_format (process_article sit a) = priority_format a"
proof -
  have tf: "tag_formats (process_article sit a) = tag_formats a"
    by (simp add: tag_formats_def process_article_fields)
  show ?thesis by (simp add: priority_format_def tf process_article_fields Let_def)
qed

lemma second_run_formats:
  "set (formats (process_article sit (process_article sit a)))
     = set (formats (process_article sit a))
       \<union> (case priority_format a of
            None \<Rightarrow> {}
          | Some p \<Rightarrow>
              if None \<in> set (concat (map decklist_formats (contents a))) then {p} else {})"
proof -
  obtain ds k1 where t1: "traverse sit a = (ds, k1)" by (cases "traverse sit a")
  obtain es k2 where t2: "traverse sit (process_article sit a) = (es, k2)"
    by (cases "traverse sit (process_article sit a)")
  from t1 have p1: "process_children sit (contents a) (seed (tag_formats a)) (priority_format a)
      = (ds, k1)" by (simp add: traverse_def)
  from t2 t1 have p2: "process_children sit ds (seed (tag_formats a)) (priority_format a)
      = (es, k2)" by (simp add: second_traverse)
  have f1: "formats (process_article sit a) = keys k1"
    by (simp add: process_article_fields t1)
  have f2: "formats (process_article sit (process_article sit a)) = keys k2"
    by (simp add: process_article_fields t2)
  show ?thesis
  proof (cases "priority_format a")
    case None
    from p1 p2 None have "shape k2 = shape k1"
      by (intro second_run_shape_top) simp_all
    then have "keys k2 = keys k1" by (simp only: keys_shape)
    with None show ?thesis by (simp add: f1 f2)
  next
    case (Some p)
    with p1 p2 have "set (keys k2) = set (keys k1)
        \<union> (if None \<in> set (concat (map decklist_formats (contents a))) then {p} else {})"
      by (intro keys_second_run) simp_all
    with Some show ?thesis by (simp only: f1 f2 option.case)
  qed
qed

lemma second_run_canonical:
  "canonical_format (process_article sit (process_article sit a))
     = canonical_format (process_article sit a)"
proof -
  obtain ds k1 where t1: "traverse sit a = (ds, k1)" by (cases "traverse sit a")
  obtain es k2 where t2: "traverse sit (process_article sit a) = (es, k2)"
    by (cases "traverse sit (process_article sit a)")
  from t1 have p1: "process_children sit (contents a) (seed (tag_formats a)) (priority_format a)
      = (ds, k1)" by (simp add: traverse_def)
  from t2 t1 have p2: "process_children sit ds (seed (tag_formats a)) (priority_format a)
      = (es, k2)" by (simp add: second_traverse)
  have r: "resolve (priority_format a) k2 = resolve (priority_format a) k1"
  proof (cases "priority_format a")
    case None
    from p1 p2 None have "shape k2 = shape k1"
      by (intro second_run_shape_top) simp_all
    then show ?thesis by (rule resolve_shape)
  next
    case (Some p)
    then show ?thesis by (simp add: resolve_Some)
  qed
  have c1: "canonical_format (process_article sit a) =
      (case resolve (priority_format a) k1 of None \<Rightarrow> canonical_format a | Some f \<Rightarrow> Some f)"
    by (simp add: canonical_process_article t1)
  have c2: "canonical_format (process_article sit (process_article sit a)) =
      (case resolve (priority_format a) k2 of
         None \<Rightarrow> canonical_format (process_article sit a) | Some f \<Rightarrow> Some f)"
    by (simp add: canonical_process_article [of sit "process_article sit a"] t2 second_priority)
  show ?thesis unfolding c2 r unfolding c1
    by (cases "resolve (priority_format a) k1") simp_all
qed

section \<open>Claims\<close>

text \<open>
  C9. With a non-null override, \<open>process_block\<close> stamps the override on the block and
  returns: the accumulator is returned as it was, and the result depends neither on the
  block's text nor on \<open>search_in_text\<close>.
\<close>

theorem process_block_override:
  "process_block sit txt bf known (Some f) = (Some f, known)
   \<and> process_content sit (Block txt bf) known (Some f) = (Block txt (Some f), known)"
  by (simp add: process_block_def)

text \<open>
  C5. \<open>check_format_in_title\<close> returns null on a null title. On a title \<open>t\<close> it
  returns the format \<open>f\<close> when \<open>f\<close> is the only one of the six names that is a substring
  of the lower-cased title, and null when no name is a substring or when two different
  names are. "Substring" is the library's \<open>sublist\<close>: \<open>lower t = ps @ f @ ss\<close> for some
  \<open>ps\<close>, \<open>ss\<close>.
\<close>

theorem check_format_in_title_spec:
  "check_format_in_title None = None
   \<and> (\<forall>f\<in>set MTGFORMATS.
          sublist f (lower t) \<and> (\<forall>g\<in>set MTGFORMATS. sublist g (lower t) \<longrightarrow> g = f)
          \<longrightarrow> check_format_in_title (Some t) = Some f)
   \<and> ((\<forall>f\<in>set MTGFORMATS. \<not> sublist f (lower t)) \<longrightarrow> check_format_in_title (Some t) = None)
   \<and> ((\<exists>f\<in>set MTGFORMATS. \<exists>g\<in>set MTGFORMATS. f \<noteq> g \<and> sublist f (lower t) \<and> sublist g (lower t))
          \<longrightarrow> check_format_in_title (Some t) = None)"
proof (intro conjI ballI impI)
  show "check_format_in_title None = None" by (simp add: check_format_in_title_def)
next
  fix f assume f: "f \<in> set MTGFORMATS"
    and h: "sublist f (lower t) \<and> (\<forall>g\<in>set MTGFORMATS. sublist g (lower t) \<longrightarrow> g = f)"
  have "filter (\<lambda>f. str_in f (lower t)) MTGFORMATS = [f]"
  proof (rule filter_single [OF distinct_MTGFORMATS f])
    show "str_in f (lower t)" using h by (simp add: str_in_sublist)
    show "\<forall>y\<in>set MTGFORMATS. str_in y (lower t) \<longrightarrow> y = f"
      using h unfolding str_in_sublist by blast
  qed
  then show "check_format_in_title (Some t) = Some f"
    by (simp add: check_format_in_title_def)
next
  assume "\<forall>f\<in>set MTGFORMATS. \<not> sublist f (lower t)"
  then have "filter (\<lambda>f. str_in f (lower t)) MTGFORMATS = []"
    unfolding filter_empty_conv str_in_sublist by blast
  then show "check_format_in_title (Some t) = None"
    by (simp add: check_format_in_title_def)
next
  assume "\<exists>f\<in>set MTGFORMATS. \<exists>g\<in>set MTGFORMATS. f \<noteq> g \<and> sublist f (lower t) \<and> sublist g (lower t)"
  then obtain f g where "f \<in> set MTGFORMATS" "g \<in> set MTGFORMATS" "f \<noteq> g"
    "str_in f (lower t)" "str_in g (lower t)" unfolding str_in_sublist by blast
  then have "length (filter (\<lambda>f. str_in f (lower t)) MTGFORMATS) \<noteq> 1"
    by (rule filter_two)
  then show "check_format_in_title (Some t) = None"
    by (simp add: check_format_in_title_def)
qed

theorem check_format_in_title_spec_witness:
  "check_format_in_title (Some ''Pioneer Deck Tech'') = Some ''pioneer''
   \<and> check_format_in_title (Some ''Weekly News'') = None
   \<and> check_format_in_title (Some ''From Standard to Pioneer'') = None"
proof -
  have m: "''pioneer'' \<in> set MTGFORMATS" "''standard'' \<in> set MTGFORMATS"
    by (simp_all add: MTGFORMATS_def)
  have l: "lower ''Pioneer Deck Tech'' = ''pioneer deck tech''"
    "lower ''Weekly News'' = ''weekly news''"
    "lower ''From Standard to Pioneer'' = ''from standard to pioneer''"
    by (simp_all add: lower_def lower_char_def)
  have a: "sublist ''pioneer'' (lower ''Pioneer Deck Tech'')
      \<and> (\<forall>g\<in>set MTGFORMATS. sublist g (lower ''Pioneer Deck Tech'') \<longrightarrow> g = ''pioneer'')"
    unfolding l by (simp add: str_in_sublist [symmetric] MTGFORMATS_def)
  have b: "\<forall>f\<in>set MTGFORMATS. \<not> sublist f (lower ''Weekly News'')"
    unfolding l by (simp add: str_in_sublist [symmetric] MTGFORMATS_def)
  have c: "\<exists>f\<in>set MTGFORMATS. \<exists>g\<in>set MTGFORMATS.
      f \<noteq> g \<and> sublist f (lower ''From Standard to Pioneer'')
            \<and> sublist g (lower ''From Standard to Pioneer'')"
    unfolding l by (simp add: str_in_sublist [symmetric] MTGFORMATS_def)
  from check_format_in_title_spec [of "''Pioneer Deck Tech''"] m(1) a
  have 1: "check_format_in_title (Some ''Pioneer Deck Tech'') = Some ''pioneer''" by blast
  from check_format_in_title_spec [of "''Weekly News''"] b
  have 2: "check_format_in_title (Some ''Weekly News'') = None" by blast
  from check_format_in_title_spec [of "''From Standard to Pioneer''"] c
  have 3: "check_format_in_title (Some ''From Standard to Pioneer'') = None" by blast
  from 1 2 3 show ?thesis by simp
qed

text \<open>
  C6, as stated, fails when two tags yield the same format: with the tags "Standard" and
  "standard" exactly one tag-derived format exists (and one key is seeded), yet the list
  of line 25 has two elements, \<open>len(formats) == 1\<close> is false and the title decides.
\<close>

theorem priority_format_counterexample:
  "set (tag_formats \<lparr>title = Some ''Pioneer Deck Tech'', tags = [''Standard'', ''standard''],
      formats = [], canonical_format = None, contents = []\<rparr>) = {''standard''}
   \<and> keys (seed (tag_formats \<lparr>title = Some ''Pioneer Deck Tech'',
      tags = [''Standard'', ''standard''],
      formats = [], canonical_format = None, contents = []\<rparr>)) = [''standard'']
   \<and> priority_format \<lparr>title = Some ''Pioneer Deck Tech'', tags = [''Standard'', ''standard''],
      formats = [], canonical_format = None, contents = []\<rparr> = Some ''pioneer''
   \<and> priority_format \<lparr>title = Some ''Pioneer Deck Tech'', tags = [''Standard'', ''standard''],
      formats = [], canonical_format = None, contents = []\<rparr> \<noteq> Some ''standard''"
proof -
  have t: "tag_formats \<lparr>title = Some ''Pioneer Deck Tech'', tags = [''Standard'', ''standard''],
      formats = [], canonical_format = None, contents = []\<rparr> = [''standard'', ''standard'']"
    by (simp add: tag_formats_def lower_def lower_char_def MTGFORMATS_def)
  have ct: "check_format_in_title (Some ''Pioneer Deck Tech'') = Some ''pioneer''"
    by (simp add: check_format_in_title_def lower_def lower_char_def MTGFORMATS_def)
  show ?thesis
    by (simp add: t priority_format_def ct seed_def setitem_def keys_def)
qed

text \<open>
  C6, amended. When the list of tag-derived formats (one element for each tag that
  lower-cases to a format name, repeats kept) has exactly one element, that element is
  the priority format and the title plays no part: replacing the title by any other
  leaves the priority format as it is. When the list has no or several elements, the
  priority format is what the title matcher returns on the article's title. The
  traversal is run with that priority format as the override.
\<close>

theorem priority_format_spec:
  "(length (tag_formats a) = 1 \<longrightarrow>
      priority_format a = Some (tag_formats a ! 0)
      \<and> (\<forall>t. priority_format (a\<lparr>title := t\<rparr>) = priority_format a))
   \<and> (length (tag_formats a) \<noteq> 1 \<longrightarrow> priority_format a = check_format_in_title (title a))
   \<and> traverse sit a =
       process_children sit (contents a) (seed (tag_formats a)) (priority_format a)"
  by (simp add: priority_format_def tag_formats_def traverse_def)

theorem priority_format_spec_witness:
  "priority_format \<lparr>title = Some ''Pioneer Deck Tech'', tags = [''Standard''],
      formats = [], canonical_format = None, contents = []\<rparr> = Some ''standard''
   \<and> priority_format \<lparr>title = Some ''Pioneer Deck Tech'', tags = [''Standard'', ''limited''],
      formats = [], canonical_format = None, contents = []\<rparr> = Some ''pioneer''
   \<and> priority_format \<lparr>title = Some ''Pioneer Deck Tech'', tags = [''Standard'', ''standard''],
      formats = [], canonical_format = None, contents = []\<rparr> = Some ''pioneer''
   \<and> priority_format \<lparr>title = Some ''Pioneer Deck Tech'', tags = [''News''],
      formats = [], canonical_format = None, contents = []\<rparr> = Some ''pioneer''"
proof -
  let ?a = "\<lparr>title = Some ''Pioneer Deck Tech'', tags = [''Standard''],
      formats = [], canonical_format = None, contents = []\<rparr>"
  let ?b = "\<lparr>title = Some ''Pioneer Deck Tech'', tags = [''Standard'', ''limited''],
      formats = [], canonical_format = None, contents = []\<rparr>"
  let ?c = "\<lparr>title = Some ''Pioneer Deck Tech'', tags = [''Standard'', ''standard''],
      formats = [], canonical_format = None, contents = []\<rparr>"
  let ?d = "\<lparr>title = Some ''Pioneer Deck Tech'', tags = [''News''],
      formats = [], canonical_format = None, contents = []\<rparr>"
  have ta: "tag_formats ?a = [''standard'']"
    and tb: "tag_formats ?b = [''standard'', ''limited'']"
    and tc: "tag_formats ?c = [''standard'', ''standard'']"
    and td: "tag_formats ?d = []"
    by (simp_all add: tag_formats_def lower_def lower_char_def MTGFORMATS_def)
  have ct: "check_format_in_title (Some ''Pioneer Deck Tech'') = Some ''pioneer''"
    by (simp add: check_format_in_title_def lower_def lower_char_def MTGFORMATS_def)
  from priority_format_spec [of ?a] ta
  have 1: "priority_format ?a = Some ''standard''" by simp
  from priority_format_spec [of ?b] tb ct
  have 2: "priority_format ?b = Some ''pioneer''" by simp
  from priority_format_spec [of ?c] tc ct
  have 3: "priority_format ?c = Some ''pioneer''" by simp
  from priority_format_spec [of ?d] td ct
  have 4: "priority_format ?d = Some ''pioneer''" by simp
  from 1 2 3 4 show ?thesis by simp
qed

text \<open>
  C7. A decklist that carries a format keeps it, and that format is counted once more in
  \<open>known_formats\<close>: its count goes up by one from its old value (from zero when the key
  was absent, in which case the key is appended), whatever the override. A decklist whose
  format is null takes the override, null or not, and the accumulator stays as it was.
\<close>

theorem process_decklist_spec:
  "process_decklist (Some d) known fmt = (Some d, count_format d known)
   \<and> map_of (count_format d known) =
       (map_of known)(d \<mapsto> (case map_of known d of None \<Rightarrow> 0 | Some n \<Rightarrow> n) + 1)
   \<and> keys (count_format d known) =
       (if d \<in> set (keys known) then keys known else keys known @ [d])
   \<and> process_decklist None known fmt = (fmt, known)
   \<and> process_content sit (Decklist (Some d)) known fmt =
       (Decklist (Some d), count_format d known)
   \<and> process_content sit (Decklist None) known fmt = (Decklist fmt, known)"
  by (simp add: process_decklist_def map_of_count_format keys_count_format)

text \<open>
  C10. \<open>process_section\<close> never reads the \<open>format_\<close> the section carries on input: the
  result is the same for any two such values, so the old value is neither kept nor
  counted. The section's new \<open>format_\<close> is the override when there is one and the result
  of the title matcher on the section's own title otherwise; on a section without
  children the accumulator is unchanged under an override and otherwise counts exactly
  the title match, if any. A section with a null title that carries format \<open>d\<close> comes out
  with the override as its format and the accumulator as it was. A decklist that carries
  \<open>d\<close> comes out carrying \<open>d\<close>, and the count of \<open>d\<close> is one more than before (one, with
  the key appended, when \<open>d\<close> was absent), whatever the override.
\<close>

theorem process_section_overwrites:
  "process_section sit t sf cs known fmt = process_section sit t sf' cs known fmt
   \<and> process_content sit (Section t sf cs) known fmt =
       process_content sit (Section t sf' cs) known fmt
   \<and> process_section sit t sf [] known (Some f) = (Section t (Some f) [], known)
   \<and> process_section sit t sf [] known None =
       (Section t (check_format_in_title t) [],
        case check_format_in_title t of None \<Rightarrow> known | Some g \<Rightarrow> count_format g known)
   \<and> (\<exists>cs' known'. process_section sit t sf cs known fmt =
         (Section t (case fmt of None \<Rightarrow> check_format_in_title t | Some f \<Rightarrow> Some f) cs',
          known'))
   \<and> process_content sit (Section None (Some d) []) known fmt = (Section None fmt [], known)
   \<and> process_content sit (Decklist (Some d)) known fmt =
       (Decklist (Some d), count_format d known)
   \<and> process_decklist (Some d) known fmt = (Some d, count_format d known)
   \<and> map_of (snd (process_content sit (Decklist (Some d)) known fmt)) d =
       Some ((case map_of known d of None \<Rightarrow> 0 | Some n \<Rightarrow> n) + 1)
   \<and> keys (snd (process_content sit (Decklist (Some d)) known fmt)) =
       (if d \<in> set (keys known) then keys known else keys known @ [d])"
proof -
  have s: "process_section sit t sf cs known fmt = process_section sit t sf' cs known fmt
   \<and> process_content sit (Section t sf cs) known fmt =
       process_content sit (Section t sf' cs) known fmt
   \<and> process_section sit t sf [] known (Some f) = (Section t (Some f) [], known)
   \<and> process_section sit t sf [] known None =
       (Section t (check_format_in_title t) [],
        case check_format_in_title t of None \<Rightarrow> known | Some g \<Rightarrow> count_format g known)
   \<and> (\<exists>cs' known'. process_section sit t sf cs known fmt =
         (Section t (case fmt of None \<Rightarrow> check_format_in_title t | Some f \<Rightarrow> Some f) cs',
          known'))"
    by (auto simp: Let_def split: option.splits prod.splits)
  have n: "process_content sit (Section None (Some d) []) known fmt = (Section None fmt [], known)"
    by (cases fmt) (simp_all add: check_format_in_title_def)
  have d: "process_content sit (Decklist (Some d)) known fmt =
       (Decklist (Some d), count_format d known)"
    "process_decklist (Some d) known fmt = (Some d, count_format d known)"
    by (simp_all add: process_decklist_def)
  have m: "map_of (count_format d known) d =
       Some ((case map_of known d of None \<Rightarrow> 0 | Some n \<Rightarrow> n) + 1)"
    by (simp add: map_of_count_format)
  from s n d m show ?thesis by (simp add: keys_count_format)
qed

text \<open>
  C8. A block processed without an override. With \<open>search_in_text\<close> off, the block's
  \<open>format_\<close> and the accumulator stay as they were, whatever the text. With it on, the
  count of a format name is the number of positions of the lower-cased text at which the
  name starts. When all six counts are zero, block and accumulator stay as they were.
  Otherwise some format \<open>MTGFORMATS ! i\<close> holds the highest count with every earlier format
  of the vocabulary strictly below it, and the format with that property is stamped on
  the block and counted once in \<open>known_formats\<close> (\<open>setdefault(f, 0)\<close>, then \<open>+= 1\<close>).
\<close>

theorem process_block_no_override:
  "process_block False txt bf known None = (bf, known)
   \<and> (\<forall>f\<in>set MTGFORMATS. str_count (lower txt) f = card {i. prefix f (drop i (lower txt))})
   \<and> ((\<forall>f\<in>set MTGFORMATS. str_count (lower txt) f = 0)
        \<longrightarrow> process_block True txt bf known None = (bf, known))
   \<and> ((\<exists>f\<in>set MTGFORMATS. 0 < str_count (lower txt) f)
        \<longrightarrow> (\<exists>i<length MTGFORMATS.
               (\<forall>j<length MTGFORMATS.
                   str_count (lower txt) (MTGFORMATS ! j) \<le> str_count (lower txt) (MTGFORMATS ! i))
               \<and> (\<forall>j<i. str_count (lower txt) (MTGFORMATS ! j) < str_count (lower txt) (MTGFORMATS ! i))
               \<and> process_block True txt bf known None =
                   (Some (MTGFORMATS ! i), count_format (MTGFORMATS ! i) known)))
   \<and> (\<forall>i<length MTGFORMATS.
          0 < str_count (lower txt) (MTGFORMATS ! i)
          \<and> (\<forall>j<length MTGFORMATS.
                 str_count (lower txt) (MTGFORMATS ! j) \<le> str_count (lower txt) (MTGFORMATS ! i))
          \<and> (\<forall>j<i. str_count (lower txt) (MTGFORMATS ! j) < str_count (lower txt) (MTGFORMATS ! i))
          \<longrightarrow> process_block True txt bf known None =
                (Some (MTGFORMATS ! i), count_format (MTGFORMATS ! i) known))"
proof -
  let ?c = "\<lambda>f. str_count (lower txt) f"
  let ?occ = "map ?c MTGFORMATS"
  have len: "length ?occ = length MTGFORMATS" by simp
  have nth: "\<And>j. j < length MTGFORMATS \<Longrightarrow> ?occ ! j = ?c (MTGFORMATS ! j)" by simp
  have 1: "process_block False txt bf known None = (bf, known)"
    by (simp add: process_block_def)
  have 2: "\<forall>f\<in>set MTGFORMATS. ?c f = card {i. prefix f (drop i (lower txt))}"
    by (simp add: str_count_MTGFORMATS)
  have 3: "process_block True txt bf known None = (bf, known)"
    if "\<forall>f\<in>set MTGFORMATS. ?c f = 0"
  proof -
    from that have "sum_list ?occ = 0" by (simp add: sum_list_zero_iff_nat)
    then show ?thesis by (simp add: process_block_def)
  qed
  have 4: "\<exists>i<length MTGFORMATS.
        (\<forall>j<length MTGFORMATS. ?c (MTGFORMATS ! j) \<le> ?c (MTGFORMATS ! i))
        \<and> (\<forall>j<i. ?c (MTGFORMATS ! j) < ?c (MTGFORMATS ! i))
        \<and> process_block True txt bf known None =
            (Some (MTGFORMATS ! i), count_format (MTGFORMATS ! i) known)"
    if "\<exists>f\<in>set MTGFORMATS. 0 < ?c f"
  proof -
    from that have nz: "sum_list ?occ \<noteq> 0" by (auto simp: sum_list_zero_iff_nat)
    from argmax_props [OF nz] have a: "argmax ?occ < length MTGFORMATS"
      and b: "\<forall>j<length MTGFORMATS. ?occ ! j \<le> ?occ ! argmax ?occ"
      and c: "\<forall>j<argmax ?occ. ?occ ! j < ?occ ! argmax ?occ"
      unfolding len by blast+
    have r: "process_block True txt bf known None =
        (Some (MTGFORMATS ! argmax ?occ), count_format (MTGFORMATS ! argmax ?occ) known)"
      using that by (auto simp: process_block_def Let_def)
    from a b have b': "\<forall>j<length MTGFORMATS. ?c (MTGFORMATS ! j) \<le> ?c (MTGFORMATS ! argmax ?occ)"
      by (simp add: nth)
    from a c have c': "\<forall>j<argmax ?occ. ?c (MTGFORMATS ! j) < ?c (MTGFORMATS ! argmax ?occ)"
      by (simp add: nth)
    from a b' c' r show ?thesis by blast
  qed
  have 5: "process_block True txt bf known None =
        (Some (MTGFORMATS ! i), count_format (MTGFORMATS ! i) known)"
    if i: "i < length MTGFORMATS" and pos: "0 < ?c (MTGFORMATS ! i)"
      and mx: "\<forall>j<length MTGFORMATS. ?c (MTGFORMATS ! j) \<le> ?c (MTGFORMATS ! i)"
      and fs: "\<forall>j<i. ?c (MTGFORMATS ! j) < ?c (MTGFORMATS ! i)" for i
  proof -
    have "argmax ?occ = i"
    proof (rule argmax_first_max)
      show "i < length ?occ" using i by simp
      show "\<forall>j<length ?occ. ?occ ! j \<le> ?occ ! i" using mx i by simp
      show "\<forall>j<i. ?occ ! j < ?occ ! i" using fs i by simp
    qed
    moreover have "sum_list ?occ \<noteq> 0"
      using pos i by (auto simp: sum_list_zero_iff_nat)
    ultimately show ?thesis by (auto simp: process_block_def Let_def)
  qed
  from 1 2 3 4 5 show ?thesis by blast
qed


theorem process_block_no_override_witness:
  "process_block True ''Standard or Pioneer? Pioneer!'' None [] None
     = (Some ''pioneer'', [(''pioneer'', 1)])
   \<and> process_block True ''Pioneer and Standard'' None [(''standard'', 2)] None
     = (Some ''standard'', [(''standard'', 3)])
   \<and> process_block True ''Weekly news'' None [] None = (None, [])"
proof -
  let ?a = "''Standard or Pioneer? Pioneer!''"
  let ?b = "''Pioneer and Standard''"
  let ?n = "''Weekly news''"
  have la: "lower ?a = ''standard or pioneer? pioneer!''"
    and lb: "lower ?b = ''pioneer and standard''"
    and ln: "lower ?n = ''weekly news''"
    by (simp_all add: lower_def lower_char_def)
  have ca: "map (str_count (lower ?a)) MTGFORMATS = [0, 1, 0, 0, 0, 2]"
    unfolding la by (simp add: MTGFORMATS_def str_count.simps)
  have cb: "map (str_count (lower ?b)) MTGFORMATS = [0, 1, 0, 0, 0, 1]"
    unfolding lb by (simp add: MTGFORMATS_def str_count.simps)
  have cn: "map (str_count (lower ?n)) MTGFORMATS = [0, 0, 0, 0, 0, 0]"
    unfolding ln by (simp add: MTGFORMATS_def str_count.simps)
  have cnt: "\<And>s j. j < 6 \<Longrightarrow>
      str_count s (MTGFORMATS ! j) = map (str_count s) MTGFORMATS ! j"
    by (simp add: length_MTGFORMATS)
  have ha: "0 < str_count (lower ?a) (MTGFORMATS ! 5)
      \<and> (\<forall>j<length MTGFORMATS.
             str_count (lower ?a) (MTGFORMATS ! j) \<le> str_count (lower ?a) (MTGFORMATS ! 5))
      \<and> (\<forall>j<5. str_count (lower ?a) (MTGFORMATS ! j) < str_count (lower ?a) (MTGFORMATS ! 5))"
    by (simp add: length_MTGFORMATS cnt ca all_lt_6 all_lt_5)
  have hb: "0 < str_count (lower ?b) (MTGFORMATS ! 1)
      \<and> (\<forall>j<length MTGFORMATS.
             str_count (lower ?b) (MTGFORMATS ! j) \<le> str_count (lower ?b) (MTGFORMATS ! 1))
      \<and> (\<forall>j<1. str_count (lower ?b) (MTGFORMATS ! j) < str_count (lower ?b) (MTGFORMATS ! 1))"
    by (simp add: length_MTGFORMATS cnt cb all_lt_6)
  have hn: "\<forall>f\<in>set MTGFORMATS. str_count (lower ?n) f = 0"
    unfolding ln by (simp add: MTGFORMATS_def str_count.simps)
  note A = process_block_no_override [of ?a None "[]", THEN conjunct2, THEN conjunct2,
      THEN conjunct2, THEN conjunct2, rule_format, of 5]
  note B = process_block_no_override [of ?b None "[(''standard'', 2)]", THEN conjunct2,
      THEN conjunct2, THEN conjunct2, THEN conjunct2, rule_format, of 1]
  note N = process_block_no_override [of ?n None "[]", THEN conjunct2, THEN conjunct2,
      THEN conjunct1, rule_format]
  have ra: "process_block True ?a None [] None
      = (Some (MTGFORMATS ! 5), count_format (MTGFORMATS ! 5) [])"
    by (rule A) (simp add: length_MTGFORMATS, rule ha)
  have rb: "process_block True ?b None [(''standard'', 2)] None
      = (Some (MTGFORMATS ! 1), count_format (MTGFORMATS ! 1) [(''standard'', 2)])"
    by (rule B) (simp add: length_MTGFORMATS, rule hb)
  have rn: "process_block True ?n None [] None = (None, [])"
    by (rule N) (use hn in blast)
  show ?thesis
    unfolding ra rb rn
    by (simp add: MTGFORMATS_def count_format_def setdefault_def add_one_def keys_def)
qed

text \<open>
  C1. Let \<open>known\<close> be the accumulator after the traversal. If the priority format is
  null, the sum of the counts is positive and the maximum count equals that sum, the
  article's canonical format is set to the key of the first entry of \<open>known\<close>, in key
  order, that holds the maximum count. In every other case, and so whenever the priority
  format is non-null, \<open>set_format\<close> is not called and the canonical format is the one the
  article came with.
\<close>

theorem process_article_canonical:
  "let known = snd (traverse sit a);
       total = sum_list (values_of known);
       top = Max (set (values_of known))
   in (priority_format a = None \<and> 0 < total \<and> top = total
         \<longrightarrow> (\<exists>k. map_option fst (find (\<lambda>(k, n). n = top) known) = Some k
                  \<and> canonical_format (process_article sit a) = Some k))
    \<and> (\<not> (priority_format a = None \<and> 0 < total \<and> top = total)
         \<longrightarrow> canonical_format (process_article sit a) = canonical_format a)"
proof -
  obtain cs known where t: "traverse sit a = (cs, known)" by (cases "traverse sit a")
  let ?total = "sum_list (values_of known)"
  let ?top = "Max (set (values_of known))"
  let ?cond = "priority_format a = None \<and> 0 < ?total \<and> ?top = ?total"
  have c: "canonical_format (process_article sit a) =
      (case resolve (priority_format a) known of None \<Rightarrow> canonical_format a | Some f \<Rightarrow> Some f)"
    by (simp add: process_article_def t set_format_def split: option.splits)
  have pos: "\<exists>k. map_option fst (find (\<lambda>(k, n). n = ?top) known) = Some k
        \<and> canonical_format (process_article sit a) = Some k" if h: ?cond
  proof -
    from h have "0 < ?total" by blast
    then have nz: "?total \<noteq> 0" by linarith
    have r: "resolve (priority_format a) known =
        map_option fst (find (\<lambda>(k, n). n = ?top) known)"
    proof -
      from h have p: "priority_format a = None" and cnd: "0 < ?total \<and> ?top = ?total"
        by blast+
      show ?thesis unfolding p resolve_None by (rule if_P [OF cnd])
    qed
    have "values_of known \<noteq> []" using nz by auto
    then have "?top \<in> set (values_of known)" by simp
    then obtain e where e: "e \<in> set known" "snd e = ?top"
      by (auto simp: values_of_def)
    then have "\<exists>x\<in>set known. (\<lambda>(k, n). n = ?top) x"
      by (auto simp: case_prod_unfold)
    then have "find (\<lambda>(k, n). n = ?top) known \<noteq> None"
      unfolding find_None_iff by blast
    then obtain x where x: "find (\<lambda>(k, n). n = ?top) known = Some x" by blast
    have "resolve (priority_format a) known = Some (fst x)" unfolding r x by simp
    then have "canonical_format (process_article sit a) = Some (fst x)" unfolding c by simp
    moreover have "map_option fst (find (\<lambda>(k, n). n = ?top) known) = Some (fst x)"
      unfolding x by simp
    ultimately show ?thesis by blast
  qed
  have neg: "canonical_format (process_article sit a) = canonical_format a" if h: "\<not> ?cond"
  proof (cases "priority_format a")
    case (Some p)
    then show ?thesis unfolding c by (simp add: resolve_Some)
  next
    case None
    with h have "\<not> (0 < ?total \<and> ?top = ?total)" by blast
    then have "resolve None known = None" unfolding resolve_None by (rule if_not_P)
    with None show ?thesis unfolding c by simp
  qed
  show ?thesis unfolding Let_def t snd_conv using pos neg by blast
qed

theorem process_article_canonical_witness:
  "canonical_format (process_article False
      \<lparr>title = None, tags = [''Standard'', ''Pioneer''], formats = [], canonical_format = None,
       contents = [Decklist (Some ''pioneer''), Decklist (Some ''pioneer'')]\<rparr>) = Some ''pioneer''
   \<and> canonical_format (process_article False
      \<lparr>title = None, tags = [], formats = [], canonical_format = None,
       contents = [Decklist (Some ''standard''), Decklist (Some ''standard''),
                   Decklist (Some ''pioneer'')]\<rparr>) = None
   \<and> canonical_format (process_article False
      \<lparr>title = None, tags = [''Standard''], formats = [], canonical_format = None,
       contents = [Decklist (Some ''standard'')]\<rparr>) = None"
proof -
  let ?a = "\<lparr>title = None, tags = [''Standard'', ''Pioneer''], formats = [],
       canonical_format = None,
       contents = [Decklist (Some ''pioneer''), Decklist (Some ''pioneer'')]\<rparr>"
  let ?b = "\<lparr>title = None, tags = [], formats = [], canonical_format = None,
       contents = [Decklist (Some ''standard''), Decklist (Some ''standard''),
                   Decklist (Some ''pioneer'')]\<rparr>"
  let ?c = "\<lparr>title = None, tags = [''Standard''], formats = [], canonical_format = None,
       contents = [Decklist (Some ''standard'')]\<rparr>"
  have ta: "tag_formats ?a = [''standard'', ''pioneer'']"
    and tb: "tag_formats ?b = []"
    and tc: "tag_formats ?c = [''standard'']"
    by (simp_all add: tag_formats_def lower_def lower_char_def MTGFORMATS_def)
  have pa: "priority_format ?a = None" and pb: "priority_format ?b = None"
    and pc: "priority_format ?c = Some ''standard''"
    by (simp_all add: priority_format_def ta tb tc check_format_in_title_def)
  have ka: "snd (traverse False ?a) = [(''standard'', 0), (''pioneer'', 2)]"
    by (simp add: traverse_def ta pa seed_def setitem_def keys_def process_decklist_def
        count_format_def setdefault_def add_one_def)
  have kb: "snd (traverse False ?b) = [(''standard'', 2), (''pioneer'', 1)]"
    by (simp add: traverse_def tb pb seed_def setitem_def keys_def process_decklist_def
        count_format_def setdefault_def add_one_def)
  from process_article_canonical [of False ?a]
  have 1: "canonical_format (process_article False ?a) = Some ''pioneer''"
    unfolding Let_def ka pa by (simp add: values_of_def)
  from process_article_canonical [of False ?b]
  have 2: "canonical_format (process_article False ?b) = None"
    unfolding Let_def kb pb by (simp add: values_of_def)
  from process_article_canonical [of False ?c]
  have 3: "canonical_format (process_article False ?c) = None"
    unfolding Let_def pc by simp
  from 1 2 3 show ?thesis by blast
qed

text \<open>
  C2. The article with no tags, title "Pioneer Deck Tech" and one section with a null
  title that holds one block with the text "this is a pioneer list", processed with
  \<open>search_in_text\<close> on, whatever \<open>formats\<close> list and node formats it starts with: the
  priority format is "pioneer", section and block are stamped "pioneer", the accumulator
  ends empty, the canonical format stays unset and \<open>formats\<close> becomes the empty list.
\<close>

theorem pioneer_deck_tech_example:
  "process_article True
     \<lparr>title = Some ''Pioneer Deck Tech'', tags = [], formats = fs, canonical_format = None,
      contents = [Section None sf [Block ''this is a pioneer list'' bf]]\<rparr>
   = \<lparr>title = Some ''Pioneer Deck Tech'', tags = [], formats = [], canonical_format = None,
      contents = [Section None (Some ''pioneer'')
                    [Block ''this is a pioneer list'' (Some ''pioneer'')]]\<rparr>
   \<and> priority_format
     \<lparr>title = Some ''Pioneer Deck Tech'', tags = [], formats = fs, canonical_format = None,
      contents = [Section None sf [Block ''this is a pioneer list'' bf]]\<rparr> = Some ''pioneer''
   \<and> snd (traverse True
     \<lparr>title = Some ''Pioneer Deck Tech'', tags = [], formats = fs, canonical_format = None,
      contents = [Section None sf [Block ''this is a pioneer list'' bf]]\<rparr>) = []"
proof -
  have ct: "check_format_in_title (Some ''Pioneer Deck Tech'') = Some ''pioneer''"
    by (simp add: check_format_in_title_def lower_def lower_char_def MTGFORMATS_def)
  show ?thesis
    by (simp add: process_article_def traverse_def priority_format_def tag_formats_def
        seed_def resolve_def ct process_block_def keys_def)
qed

text \<open>
  C4, as stated, fails: the accumulator is created with one zero-count entry per
  tag-derived format (line 28), so an article tagged "Standard" with no content ends
  with the key "standard" at count zero although nothing was observed.
\<close>

theorem known_formats_keys_counterexample:
  "''standard'' \<in> set (keys (snd (traverse False
      \<lparr>title = None, tags = [''Standard''], formats = [], canonical_format = None,
       contents = []\<rparr>)))
   \<and> values_of (snd (traverse False
      \<lparr>title = None, tags = [''Standard''], formats = [], canonical_format = None,
       contents = []\<rparr>)) = [0]
   \<and> ''standard'' \<notin> set (concat (map
      (observed False (priority_format
         \<lparr>title = None, tags = [''Standard''], formats = [], canonical_format = None,
          contents = []\<rparr>))
      (contents \<lparr>title = None, tags = [''Standard''], formats = [], canonical_format = None,
          contents = []\<rparr>)))"
proof -
  have t: "tag_formats \<lparr>title = None, tags = [''Standard''], formats = [],
      canonical_format = None, contents = []\<rparr> = [''standard'']"
    by (simp add: tag_formats_def lower_def lower_char_def MTGFORMATS_def)
  show ?thesis
    by (simp add: traverse_def t seed_def setitem_def keys_def values_of_def)
qed

text \<open>
  C4, amended. After the traversal of an article, the keys of \<open>known_formats\<close> are exactly
  the tag-derived formats, with which the accumulator is seeded at count zero, together
  with the formats observed via a section-title match, a block-text match or a pre-set
  decklist format. The same holds at every step: processing a node, or a list of nodes,
  from any accumulator adds exactly the formats observed there to the keys.
\<close>

theorem known_formats_keys:
  "set (keys (snd (traverse sit a)))
     = set (tag_formats a)
       \<union> set (concat (map (observed sit (priority_format a)) (contents a)))
   \<and> set (keys (seed (tag_formats a))) = set (tag_formats a)
   \<and> set (values_of (seed (tag_formats a))) \<subseteq> {0}
   \<and> set (keys (snd (process_children sit cs known fmt)))
     = set (keys known) \<union> set (concat (map (observed sit fmt) cs))
   \<and> set (keys (snd (process_content sit c known fmt)))
     = set (keys known) \<union> set (observed sit fmt c)"
  by (simp only: traverse_def keys_process keys_seed values_seed simp_thms)

text \<open>
  C3, as stated, fails: a decklist without a format takes the override in the first run,
  uncounted, and is counted as a decklist with a pre-set format in the second. The article
  titled "Pioneer" with one such decklist keeps its tags, ends the first run with
  \<open>formats = []\<close> and the second with \<open>formats = ["pioneer"]\<close>.
\<close>

theorem process_article_twice_counterexample:
  "tags (process_article False
      \<lparr>title = Some ''Pioneer'', tags = [], formats = [], canonical_format = None,
       contents = [Decklist None]\<rparr>) = []
   \<and> formats (process_article False
      \<lparr>title = Some ''Pioneer'', tags = [], formats = [], canonical_format = None,
       contents = [Decklist None]\<rparr>) = []
   \<and> formats (process_article False (process_article False
      \<lparr>title = Some ''Pioneer'', tags = [], formats = [], canonical_format = None,
       contents = [Decklist None]\<rparr>)) = [''pioneer'']"
proof -
  have ct: "check_format_in_title (Some ''Pioneer'') = Some ''pioneer''"
    by (simp add: check_format_in_title_def lower_def lower_char_def MTGFORMATS_def)
  have 1: "process_article False
      \<lparr>title = Some ''Pioneer'', tags = [], formats = [], canonical_format = None,
       contents = [Decklist None]\<rparr>
     = \<lparr>title = Some ''Pioneer'', tags = [], formats = [], canonical_format = None,
       contents = [Decklist (Some ''pioneer'')]\<rparr>"
    by (simp add: process_article_def traverse_def priority_format_def tag_formats_def
        seed_def resolve_def ct process_decklist_def keys_def)
  have 2: "process_article False
      \<lparr>title = Some ''Pioneer'', tags = [], formats = [], canonical_format = None,
       contents = [Decklist (Some ''pioneer'')]\<rparr>
     = \<lparr>title = Some ''Pioneer'', tags = [], formats = [''pioneer''], canonical_format = None,
       contents = [Decklist (Some ''pioneer'')]\<rparr>"
    by (simp add: process_article_def traverse_def priority_format_def tag_formats_def
        seed_def resolve_def ct process_decklist_def keys_def count_format_def
        setdefault_def add_one_def)
  show ?thesis unfolding 1 2 by simp
qed

text \<open>
  C3, amended. A run never changes the tags. A second run on the tree the first run
  produced yields the same canonical format as the first, and its \<open>formats\<close> are those of
  the first run, joined by the priority format when that is non-null and the tree held a
  decklist without a format. So the two runs yield the same \<open>formats\<close> set exactly when
  the priority format is null, or no decklist came without a format, or the priority
  format was already among the formats of the first run.
\<close>

theorem process_article_twice:
  "tags (process_article sit a) = tags a
   \<and> set (formats (process_article sit (process_article sit a)))
       = set (formats (process_article sit a))
         \<union> (case priority_format a of
              None \<Rightarrow> {}
            | Some p \<Rightarrow>
                if None \<in> set (concat (map decklist_formats (contents a))) then {p} else {})
   \<and> canonical_format (process_article sit (process_article sit a))
       = canonical_format (process_article sit a)
   \<and> (set (formats (process_article sit (process_article sit a)))
         = set (formats (process_article sit a))
       \<longleftrightarrow> (\<forall>p. priority_format a = Some p
                 \<and> None \<in> set (concat (map decklist_formats (contents a)))
               \<longrightarrow> p \<in> set (formats (process_article sit a))))"
proof -
  let ?F1 = "set (formats (process_article sit a))"
  let ?F2 = "set (formats (process_article sit (process_article sit a)))"
  let ?N = "None \<in> set (concat (map decklist_formats (contents a)))"
  have f: "?F2 = ?F1 \<union> (case priority_format a of None \<Rightarrow> {}
      | Some p \<Rightarrow> if ?N then {p} else {})"
    by (rule second_run_formats)
  have iff: "?F2 = ?F1 \<longleftrightarrow> (\<forall>p. priority_format a = Some p \<and> ?N \<longrightarrow> p \<in> ?F1)"
  proof (cases "priority_format a")
    case None
    with f show ?thesis by simp
  next
    case (Some p)
    show ?thesis
    proof (cases ?N)
      case True
      with f Some have "?F2 = insert p ?F1" by simp
      with Some True show ?thesis by auto
    next
      case False
      with f Some have "?F2 = ?F1" by simp
      with False show ?thesis by simp
    qed
  qed
  from f iff second_run_canonical [of sit a] show ?thesis
    by (simp only: process_article_fields simp_thms)
qed

theorem process_article_twice_witness:
  "set (formats (process_article False (process_article False
      \<lparr>title = None, tags = [], formats = [], canonical_format = None,
       contents = [Section (Some ''Standard decks'') None [Decklist None]]\<rparr>)))
     = set (formats (process_article False
      \<lparr>title = None, tags = [], formats = [], canonical_format = None,
       contents = [Section (Some ''Standard decks'') None [Decklist None]]\<rparr>))
   \<and> process_article False
      \<lparr>title = None, tags = [], formats = [], canonical_format = None,
       contents = [Section (Some ''Standard decks'') None [Decklist None]]\<rparr>
     = \<lparr>title = None, tags = [], formats = [''standard''],
        canonical_format = Some ''standard'',
        contents = [Section (Some ''Standard decks'') (Some ''standard'')
                      [Decklist (Some ''standard'')]]\<rparr>
   \<and> set (formats (process_article False (process_article False
      \<lparr>title = None, tags = [''Standard''], formats = [], canonical_format = None,
       contents = [Decklist None]\<rparr>)))
     = set (formats (process_article False
      \<lparr>title = None, tags = [''Standard''], formats = [], canonical_format = None,
       contents = [Decklist None]\<rparr>))
   \<and> process_article False
      \<lparr>title = None, tags = [''Standard''], formats = [], canonical_format = None,
       contents = [Decklist None]\<rparr>
     = \<lparr>title = None, tags = [''Standard''], formats = [''standard''],
        canonical_format = None, contents = [Decklist (Some ''standard'')]\<rparr>
   \<and> set (formats (process_article False (process_article False
      \<lparr>title = Some ''Pioneer'', tags = [], formats = [], canonical_format = None,
       contents = [Decklist None]\<rparr>)))
     \<noteq> set (formats (process_article False
      \<lparr>title = Some ''Pioneer'', tags = [], formats = [], canonical_format = None,
       contents = [Decklist None]\<rparr>))"
proof -
  let ?s = "\<lparr>title = None, tags = [], formats = [], canonical_format = None,
       contents = [Section (Some ''Standard decks'') None [Decklist None]]\<rparr>"
  let ?t = "\<lparr>title = None, tags = [''Standard''], formats = [], canonical_format = None,
       contents = [Decklist None]\<rparr>"
  let ?b = "\<lparr>title = Some ''Pioneer'', tags = [], formats = [], canonical_format = None,
       contents = [Decklist None]\<rparr>"
  have cs: "check_format_in_title (Some ''Standard decks'') = Some ''standard''"
    and cp: "check_format_in_title (Some ''Pioneer'') = Some ''pioneer''"
    by (simp_all add: check_format_in_title_def lower_def lower_char_def MTGFORMATS_def)
  have ts: "tag_formats ?s = []" and tb: "tag_formats ?b = []" by (simp_all add: tag_formats_def)
  have tt: "tag_formats ?t = [''standard'']"
    by (simp add: tag_formats_def lower_def lower_char_def MTGFORMATS_def)
  have ps: "priority_format ?s = None"
    by (simp add: priority_format_def ts check_format_in_title_def)
  have pt: "priority_format ?t = Some ''standard''" by (simp add: priority_format_def tt)
  have pb: "priority_format ?b = Some ''pioneer''" by (simp add: priority_format_def tb cp)
  have rs: "resolve None [(''standard'', Suc 0)] = Some ''standard''"
    by (simp add: resolve_def values_of_def keys_def argmax_def)
  have as: "process_article False ?s
      = \<lparr>title = None, tags = [], formats = [''standard''],
        canonical_format = Some ''standard'',
        contents = [Section (Some ''Standard decks'') (Some ''standard'')
                      [Decklist (Some ''standard'')]]\<rparr>"
    by (simp add: process_article_def traverse_def ts ps seed_def cs process_decklist_def
        count_format_def setdefault_def add_one_def keys_def rs set_format_def Let_def)
  have at: "process_article False ?t
      = \<lparr>title = None, tags = [''Standard''], formats = [''standard''],
        canonical_format = None, contents = [Decklist (Some ''standard'')]\<rparr>"
    by (simp add: process_article_def traverse_def tt pt seed_def setitem_def
        process_decklist_def keys_def resolve_def)
  have ab: "formats (process_article False ?b) = []"
    by (simp add: process_article_def traverse_def tb pb seed_def
        process_decklist_def keys_def resolve_def)
  note S = process_article_twice [of False ?s, THEN conjunct2, THEN conjunct2, THEN conjunct2]
  note T = process_article_twice [of False ?t, THEN conjunct2, THEN conjunct2, THEN conjunct2]
  note B = process_article_twice [of False ?b, THEN conjunct2, THEN conjunct2, THEN conjunct2]
  have 1: "set (formats (process_article False (process_article False ?s)))
      = set (formats (process_article False ?s))"
    unfolding S by (simp add: ps)
  have 2: "set (formats (process_article False (process_article False ?t)))
      = set (formats (process_article False ?t))"
    unfolding T by (simp add: pt at)
  have 3: "set (formats (process_article False (process_article False ?b)))
      \<noteq> set (formats (process_article False ?b))"
    unfolding B by (simp add: pb ab)
  from 1 as 2 at 3 show ?thesis by blast
qed

end
